theory Spec2Isabelle
  imports Complex_Main "HOL-Library.Word" "HOL-Library.Monad_Syntax"
begin

unbundle bit_operations_syntax

section \<open>Memory probe (src/probes/memory\_probes.c)\<close>

text \<open>
  The probe reads the process's memory figures from the operating system and the clock.
  What these calls return is the environment of one call of \<open>mem_probe\<close>:
  \<open>current_mem\<close> and \<open>available_mem\<close> are the values of the two static functions of
  the same names, \<open>now\<close> is \<open>time(NULL)\<close>. The function-local \<open>static uint64_t
  peak_memory\<close> and the lines written to stderr by \<open>log_alert\<close> are the state that a
  call takes and returns. A pointer argument that may be \<open>NULL\<close> is an \<open>option\<close>.
\<close>

type_synonym uint64_t = "64 word"

record MemoryProbe =
  name :: "string option"
  location :: "string option"
  threshold :: uint64_t
  timestamp :: uint64_t
  level :: int

record MemoryProbeResult =
  current_memory :: uint64_t
  peak_memory :: uint64_t
  available_memory :: uint64_t
  result_timestamp :: uint64_t
  threshold_exceeded :: int
  error_code :: int

record probe_env =
  current_mem :: uint64_t
  available_mem :: uint64_t
  now :: uint64_t

text \<open>One alert line: the probe's name, the measured usage and the threshold.\<close>

datatype alert = Alert string uint64_t uint64_t

record probe_state =
  static_peak_memory :: uint64_t
  stderr_log :: "alert list"

text \<open>\<open>memset(result, 0, sizeof(MemoryProbeResult))\<close>.\<close>

definition zero_result :: MemoryProbeResult where
  "zero_result =
     \<lparr>current_memory = 0, peak_memory = 0, available_memory = 0,
      result_timestamp = 0, threshold_exceeded = 0, error_code = 0\<rparr>"

definition log_alert :: "alert \<Rightarrow> probe_state \<Rightarrow> probe_state" where
  "log_alert a st = st\<lparr>stderr_log := stderr_log st @ [a]\<rparr>"

definition mem_probe ::
  "probe_env \<Rightarrow> probe_state \<Rightarrow> MemoryProbe option \<Rightarrow> MemoryProbeResult option
     \<Rightarrow> int \<times> MemoryProbeResult option \<times> probe_state" where
  "mem_probe env st probe result =
     (let result1 = (case result of None \<Rightarrow> None
                     | Some _ \<Rightarrow> Some (zero_result\<lparr>result_timestamp := now env\<rparr>));
          mem_usage = current_mem env;
          mem_available = available_mem env;
          st1 = (case result1 of None \<Rightarrow> st
                 | Some _ \<Rightarrow>
                     if mem_usage > static_peak_memory st
                     then st\<lparr>static_peak_memory := mem_usage\<rparr> else st);
          result2 = (case result1 of None \<Rightarrow> None
                     | Some r \<Rightarrow>
                         Some (r\<lparr>current_memory := mem_usage,
                                 available_memory := mem_available,
                                 peak_memory := static_peak_memory st1\<rparr>))
      in case probe of
           None \<Rightarrow> (0, result2, st1)
         | Some p \<Rightarrow>
             if threshold p > 0 \<and> mem_usage > threshold p
             then (1,
                   (case result2 of None \<Rightarrow> None
                    | Some r \<Rightarrow> Some (r\<lparr>threshold_exceeded := 1\<rparr>)),
                   (case name p of None \<Rightarrow> st1
                    | Some n \<Rightarrow> log_alert (Alert n mem_usage (threshold p)) st1))
             else (0, result2, st1))"

definition check_memory_usage ::
  "probe_env \<Rightarrow> probe_state \<Rightarrow> string option \<Rightarrow> uint64_t \<Rightarrow> MemoryProbeResult option
     \<Rightarrow> int \<times> MemoryProbeResult option \<times> probe_state" where
  "check_memory_usage env st probe_name thr result =
     mem_probe env st
       (Some \<lparr>name = probe_name, location = Some ''API call'', threshold = thr,
              timestamp = now env, level = 2\<rparr>)
       result"

section \<open>Capability detection (src/hardware/pipeline\_opt.c)\<close>

text \<open>
  The four registers a CPUID query leaves behind, and the processor as the detector sees
  it: \<open>cpuid_max\<close> is the highest basic leaf (\<open>__get_cpuid_max(0, NULL)\<close>, which is 0
  when the instruction is not available), \<open>cpuid\<close> gives the registers of a leaf
  (sub-leaf 0).
\<close>

type_synonym uint32_t = "32 word"

record regs =
  eax :: uint32_t
  ebx :: uint32_t
  ecx :: uint32_t
  edx :: uint32_t

record cpu =
  cpuid_max :: nat
  cpuid :: "nat \<Rightarrow> regs"

text \<open>
  \<open>__get_cpuid\<close> and \<open>__get_cpuid_count\<close> of the compiler's \<open>cpuid.h\<close> (the header is
  not part of the repository): they return 0 and leave the four output variables alone
  when the leaf is above the highest supported one, and otherwise write all four and
  return 1.
\<close>

definition get_cpuid :: "cpu \<Rightarrow> nat \<Rightarrow> regs option" where
  "get_cpuid c leaf =
     (if cpuid_max c = 0 \<or> cpuid_max c < leaf then None else Some (cpuid c leaf))"

text \<open>\<open>r & (1 << k)\<close> as a condition.\<close>

definition bit_set :: "uint32_t \<Rightarrow> nat \<Rightarrow> bool" where
  "bit_set r k = (r AND push_bit k 1 \<noteq> 0)"

text \<open>
  The tail of \<open>detect_cpu_features\<close>: the eight tests on the variables \<open>ecx\<close>,
  \<open>edx\<close> and \<open>ebx\<close> as they stand when the tests are reached.
\<close>

definition feature_tests :: "uint32_t \<Rightarrow> uint32_t \<Rightarrow> uint32_t \<Rightarrow> int" where
  "feature_tests ecx_v edx_v ebx_v =
     (let features = 0;
          features = (if bit_set edx_v 25 then features OR 1 else features);
          features = (if bit_set edx_v 26 then features OR 2 else features);
          features = (if bit_set ecx_v 0 then features OR 4 else features);
          features = (if bit_set ecx_v 9 then features OR 8 else features);
          features = (if bit_set ecx_v 19 then features OR 16 else features);
          features = (if bit_set ecx_v 20 then features OR 32 else features);
          features = (if bit_set ecx_v 28 then features OR 64 else features);
          features = (if bit_set ebx_v 5 then features OR 128 else features)
      in features)"

text \<open>
  The first argument of the three detectors says whether the file is compiled with
  \<open>_MSC_VER\<close>. With MSVC, \<open>ecx\<close> and \<open>edx\<close> are copied out of \<open>cpu_info\<close> after the
  query of leaf 1 and \<open>ebx\<close> after the query of leaf 7. Without, both queries write
  the same four variables \<open>eax, ebx, ecx, edx\<close>: after a successful query of leaf 7
  the tests read the registers of leaf 7; after a failed one they read \<open>ecx\<close> and
  \<open>edx\<close> of leaf 1 and \<open>ebx = 0\<close>.
\<close>

definition detect_cpu_features :: "bool \<Rightarrow> cpu \<Rightarrow> int" where
  "detect_cpu_features msc_ver c =
     (if msc_ver
      then feature_tests (ecx (cpuid c 1)) (edx (cpuid c 1)) (ebx (cpuid c 7))
      else (case get_cpuid c 1 of
              None \<Rightarrow> 0
            | Some r1 \<Rightarrow>
                (case get_cpuid c 7 of
                   None \<Rightarrow> feature_tests (ecx r1) (edx r1) 0
                 | Some r7 \<Rightarrow> feature_tests (ecx r7) (edx r7) (ebx r7))))"

definition detect_prefetch_support :: "bool \<Rightarrow> cpu \<Rightarrow> int" where
  "detect_prefetch_support msc_ver c =
     (if msc_ver
      then (if bit_set (edx (cpuid c 1)) 9 then 1 else 0)
      else (case get_cpuid c 1 of
              None \<Rightarrow> 0
            | Some r1 \<Rightarrow> (if bit_set (edx r1) 9 then 1 else 0)))"

definition clflush_line_size :: "regs \<Rightarrow> int" where
  "clflush_line_size r = uint (drop_bit 8 (ebx r) AND 0xff) * 8"

definition get_cache_line_size :: "bool \<Rightarrow> cpu \<Rightarrow> int" where
  "get_cache_line_size msc_ver c =
     (if msc_ver
      then (if clflush_line_size (cpuid c 1) > 0 then clflush_line_size (cpuid c 1) else 64)
      else (case get_cpuid c 1 of
              None \<Rightarrow> 64
            | Some r1 \<Rightarrow> (if clflush_line_size r1 > 0 then clflush_line_size r1 else 64)))"

definition is_pipeline_opt_supported :: "bool \<Rightarrow> cpu \<Rightarrow> int" where
  "is_pipeline_opt_supported msc_ver c =
     (let features = detect_cpu_features msc_ver c;
          prefetch_support = detect_prefetch_support msc_ver c;
          cache_line_size = get_cache_line_size msc_ver c
      in if features AND 128 \<noteq> 0 \<and> prefetch_support \<noteq> 0 then 2
         else if features AND 32 \<noteq> 0 \<and> prefetch_support \<noteq> 0 then 1
         else 0)"

text \<open>
  A processor with SSE4.2 and without AVX2, for the example below: the register values
  of an Intel Core i7-3770, whose leaf 7 exists and reports neither AVX2 nor any bit in
  \<open>ecx\<close> and \<open>edx\<close>.
\<close>

definition sse42_cpu :: cpu where
  "sse42_cpu =
     \<lparr>cpuid_max = 13,
      cpuid = (\<lambda>leaf.
        if leaf = 1 then \<lparr>eax = 0x306A9, ebx = 0x04100800, ecx = 0x7FBAE3FF, edx = 0xBFEBFBFF\<rparr>
        else if leaf = 7 then \<lparr>eax = 0, ebx = 0x281, ecx = 0, edx = 0\<rparr>
        else \<lparr>eax = 0, ebx = 0, ecx = 0, edx = 0\<rparr>)\<rparr>"


section \<open>Buffers and loops\<close>

text \<open>
  A buffer is the list of the elements the caller allocated; a kernel receives it by
  pointer and an element count. An access outside the buffer is undefined behaviour in
  C: the model returns \<open>None\<close> there, and \<open>None\<close> propagates to the kernel's
  result. The buffers passed to one call are distinct objects.

  C's \<open>int\<close> has 32 bits, and signed overflow is undefined behaviour as well: the
  arithmetic the kernels do on \<open>int\<close> (counter increments, index products and sums,
  \<open>size - 8\<close>, the element count of \<open>memset\<close>) is \<open>int_add\<close>, \<open>int_sub\<close> and
  \<open>int_mul\<close>, which return \<open>None\<close> when the result leaves the range of \<open>int\<close>.

  The arithmetic of \<open>float\<close> is \<open>+\<close>, \<open>*\<close> and \<open>0\<close> of an arbitrary type, with
  no law assumed (in particular no associativity): what is proved for every such type
  holds for IEEE single precision. A vector register is the list of its lanes, lane 0
  first, and a lane-wise instruction applies the scalar operation to each lane.
\<close>

definition INT_MAX :: int where
  "INT_MAX = 2147483647"

definition INT_MIN :: int where
  "INT_MIN = - 2147483648"

definition int_add :: "int \<Rightarrow> int \<Rightarrow> int option" where
  "int_add x y = (if INT_MIN \<le> x + y \<and> x + y \<le> INT_MAX then Some (x + y) else None)"

definition int_sub :: "int \<Rightarrow> int \<Rightarrow> int option" where
  "int_sub x y = (if INT_MIN \<le> x - y \<and> x - y \<le> INT_MAX then Some (x - y) else None)"

definition int_mul :: "int \<Rightarrow> int \<Rightarrow> int option" where
  "int_mul x y = (if INT_MIN \<le> x * y \<and> x * y \<le> INT_MAX then Some (x * y) else None)"

definition load :: "'a list \<Rightarrow> int \<Rightarrow> 'a option" where
  "load buf i = (if 0 \<le> i \<and> i < int (length buf) then Some (buf ! nat i) else None)"

definition store :: "'a list \<Rightarrow> int \<Rightarrow> 'a \<Rightarrow> 'a list option" where
  "store buf i v =
     (if 0 \<le> i \<and> i < int (length buf) then Some (buf[nat i := v]) else None)"

text \<open>Unaligned vector load and store of \<open>w\<close> lanes at \<open>&buf[i]\<close>.\<close>

definition loadu :: "nat \<Rightarrow> 'a list \<Rightarrow> int \<Rightarrow> 'a list option" where
  "loadu w buf i =
     (if 0 \<le> i \<and> i + int w \<le> int (length buf)
      then Some (take w (drop (nat i) buf)) else None)"

definition storeu :: "'a list \<Rightarrow> int \<Rightarrow> 'a list \<Rightarrow> 'a list option" where
  "storeu buf i v =
     (if 0 \<le> i \<and> i + int (length v) \<le> int (length buf)
      then Some (take (nat i) buf @ v @ drop (nat i + length v) buf) else None)"

text \<open>
  \<open>for (; i < n; i += step) body\<close> with the counter declared before the loop: the
  result is the counter and the state when the loop is left. The increment is an
  \<open>int\<close> addition. Every loop of the sources has a positive constant stride.
\<close>

function loop_from ::
  "int \<Rightarrow> int \<Rightarrow> int \<Rightarrow> (int \<Rightarrow> 's \<Rightarrow> 's option) \<Rightarrow> 's \<Rightarrow> (int \<times> 's) option" where
  "loop_from i n step body s =
     (if i < n \<and> 0 < step
      then (case body i s of
              None \<Rightarrow> None
            | Some s' \<Rightarrow>
                (case int_add i step of
                   None \<Rightarrow> None
                 | Some i' \<Rightarrow> loop_from i' n step body s'))
      else Some (i, s))"
  by pat_completeness auto
termination
  by (relation "measure (\<lambda>(i, n, step, body, s). nat (n - i))")
    (auto simp: int_add_def split: if_splits)

declare loop_from.simps [simp del]

text \<open>\<open>for (int i = i0; i < n; i += step) body\<close>: the counter is local to the loop.\<close>

definition for_loop ::
  "int \<Rightarrow> int \<Rightarrow> int \<Rightarrow> (int \<Rightarrow> 's \<Rightarrow> 's option) \<Rightarrow> 's \<Rightarrow> 's option" where
  "for_loop i0 n step body s = map_option snd (loop_from i0 n step body s)"

section \<open>Tier kernels (src/hardware/simd\_kernels.cpp)\<close>

text \<open>
  Every instruction-set kernel of this file is one loop \<open>for (int i = 0; i < n; i += w)\<close>
  whose body loads \<open>w\<close> lanes at \<open>&a[i]\<close>, applies one lane-wise instruction and stores
  \<open>w\<close> lanes at \<open>&c[i]\<close>; the kernels differ in the width \<open>w\<close> and in the
  instruction. The three loop shapes are written once, and each kernel of the source is
  its instance.
\<close>

definition simd_binary ::
  "nat \<Rightarrow> ('a \<Rightarrow> 'a \<Rightarrow> 'a) \<Rightarrow> 'a list \<Rightarrow> 'a list \<Rightarrow> 'a list \<Rightarrow> int \<Rightarrow> 'a list option" where
  "simd_binary w f a b c n =
     for_loop 0 n (int w) (\<lambda>i c. do {
       vecA \<leftarrow> loadu w a i;
       vecB \<leftarrow> loadu w b i;
       storeu c i (map2 f vecA vecB) }) c"

definition simd_scale :: "nat \<Rightarrow> 'a::times list \<Rightarrow> 'a \<Rightarrow> int \<Rightarrow> 'a list option" where
  "simd_scale w vec scalar n =
     (let vscalar = replicate w scalar
      in for_loop 0 n (int w) (\<lambda>i vec. do {
           v \<leftarrow> loadu w vec i;
           storeu vec i (map2 (*) v vscalar) }) vec)"

definition simd_ternary ::
  "nat \<Rightarrow> ('a \<Rightarrow> 'a \<Rightarrow> 'a \<Rightarrow> 'a) \<Rightarrow> 'a list \<Rightarrow> 'a list \<Rightarrow> 'a list \<Rightarrow> 'a list \<Rightarrow> int
     \<Rightarrow> 'a list option" where
  "simd_ternary w f a b c result n =
     for_loop 0 n (int w) (\<lambda>i result. do {
       vecA \<leftarrow> loadu w a i;
       vecB \<leftarrow> loadu w b i;
       vecC \<leftarrow> loadu w c i;
       storeu result i (map (\<lambda>(x, y, z). f x y z) (zip vecA (zip vecB vecC))) }) result"

definition matrix_mult_avx512 :: "'a::times list \<Rightarrow> 'a list \<Rightarrow> 'a list \<Rightarrow> int \<Rightarrow> 'a list option" where
  "matrix_mult_avx512 a b c n = simd_binary 16 (*) a b c n"

definition matrix_add_avx512 :: "'a::plus list \<Rightarrow> 'a list \<Rightarrow> 'a list \<Rightarrow> int \<Rightarrow> 'a list option" where
  "matrix_add_avx512 a b c n = simd_binary 16 (+) a b c n"

definition vector_scale_avx512 :: "'a::times list \<Rightarrow> 'a \<Rightarrow> int \<Rightarrow> 'a list option" where
  "vector_scale_avx512 vec scalar n = simd_scale 16 vec scalar n"

text \<open>
  \<open>fmadd\<close> is the fused multiply-add of the hardware (\<open>a * b + c\<close> with one rounding),
  a parameter of the kernels that use it.
\<close>

definition fma_avx512 ::
  "('a \<Rightarrow> 'a \<Rightarrow> 'a \<Rightarrow> 'a) \<Rightarrow> 'a list \<Rightarrow> 'a list \<Rightarrow> 'a list \<Rightarrow> 'a list \<Rightarrow> int \<Rightarrow> 'a list option" where
  "fma_avx512 fmadd a b c result n = simd_ternary 16 fmadd a b c result n"

definition matrix_mult_avx2 :: "'a::times list \<Rightarrow> 'a list \<Rightarrow> 'a list \<Rightarrow> int \<Rightarrow> 'a list option" where
  "matrix_mult_avx2 a b c n = simd_binary 8 (*) a b c n"

definition matrix_add_avx2 :: "'a::plus list \<Rightarrow> 'a list \<Rightarrow> 'a list \<Rightarrow> int \<Rightarrow> 'a list option" where
  "matrix_add_avx2 a b c n = simd_binary 8 (+) a b c n"

definition vector_scale_avx2 :: "'a::times list \<Rightarrow> 'a \<Rightarrow> int \<Rightarrow> 'a list option" where
  "vector_scale_avx2 vec scalar n = simd_scale 8 vec scalar n"

text \<open>The first argument says whether \<open>__FMA__\<close> is defined.\<close>

definition fma_avx2 ::
  "bool \<Rightarrow> ('a::{plus,times} \<Rightarrow> 'a \<Rightarrow> 'a \<Rightarrow> 'a) \<Rightarrow> 'a list \<Rightarrow> 'a list \<Rightarrow> 'a list \<Rightarrow> 'a list \<Rightarrow> int
     \<Rightarrow> 'a list option" where
  "fma_avx2 fma_macro fmadd a b c result n =
     (if fma_macro then simd_ternary 8 fmadd a b c result n
      else simd_ternary 8 (\<lambda>x y z. x * y + z) a b c result n)"

definition matrix_mult_avx :: "'a::times list \<Rightarrow> 'a list \<Rightarrow> 'a list \<Rightarrow> int \<Rightarrow> 'a list option" where
  "matrix_mult_avx a b c n = simd_binary 8 (*) a b c n"

definition matrix_add_avx :: "'a::plus list \<Rightarrow> 'a list \<Rightarrow> 'a list \<Rightarrow> int \<Rightarrow> 'a list option" where
  "matrix_add_avx a b c n = simd_binary 8 (+) a b c n"

definition vector_scale_avx :: "'a::times list \<Rightarrow> 'a \<Rightarrow> int \<Rightarrow> 'a list option" where
  "vector_scale_avx vec scalar n = simd_scale 8 vec scalar n"

definition matrix_mult_sse42 :: "'a::times list \<Rightarrow> 'a list \<Rightarrow> 'a list \<Rightarrow> int \<Rightarrow> 'a list option" where
  "matrix_mult_sse42 a b c n = simd_binary 4 (*) a b c n"

definition matrix_add_sse42 :: "'a::plus list \<Rightarrow> 'a list \<Rightarrow> 'a list \<Rightarrow> int \<Rightarrow> 'a list option" where
  "matrix_add_sse42 a b c n = simd_binary 4 (+) a b c n"

definition vector_scale_sse42 :: "'a::times list \<Rightarrow> 'a \<Rightarrow> int \<Rightarrow> 'a list option" where
  "vector_scale_sse42 vec scalar n = simd_scale 4 vec scalar n"

definition matrix_mult_neon :: "'a::times list \<Rightarrow> 'a list \<Rightarrow> 'a list \<Rightarrow> int \<Rightarrow> 'a list option" where
  "matrix_mult_neon a b c n = simd_binary 4 (*) a b c n"

definition matrix_add_neon :: "'a::plus list \<Rightarrow> 'a list \<Rightarrow> 'a list \<Rightarrow> int \<Rightarrow> 'a list option" where
  "matrix_add_neon a b c n = simd_binary 4 (+) a b c n"

definition vector_scale_neon :: "'a::times list \<Rightarrow> 'a \<Rightarrow> int \<Rightarrow> 'a list option" where
  "vector_scale_neon vec scalar n = simd_scale 4 vec scalar n"

text \<open>\<open>vmlaq_f32(vecC, vecA, vecB)\<close> is \<open>vecC + vecA * vecB\<close> in each lane.\<close>

definition fma_neon ::
  "'a::{plus,times} list \<Rightarrow> 'a list \<Rightarrow> 'a list \<Rightarrow> 'a list \<Rightarrow> int \<Rightarrow> 'a list option" where
  "fma_neon a b c result n = simd_ternary 4 (\<lambda>x y z. z + x * y) a b c result n"

definition matrix_mult_baseline :: "'a::times list \<Rightarrow> 'a list \<Rightarrow> 'a list \<Rightarrow> int \<Rightarrow> 'a list option" where
  "matrix_mult_baseline a b c n =
     for_loop 0 n 1 (\<lambda>i c. do { x \<leftarrow> load a i; y \<leftarrow> load b i; store c i (x * y) }) c"

definition matrix_add_baseline :: "'a::plus list \<Rightarrow> 'a list \<Rightarrow> 'a list \<Rightarrow> int \<Rightarrow> 'a list option" where
  "matrix_add_baseline a b c n =
     for_loop 0 n 1 (\<lambda>i c. do { x \<leftarrow> load a i; y \<leftarrow> load b i; store c i (x + y) }) c"

definition vector_scale_baseline :: "'a::times list \<Rightarrow> 'a \<Rightarrow> int \<Rightarrow> 'a list option" where
  "vector_scale_baseline vec scalar n =
     for_loop 0 n 1 (\<lambda>i vec. do { x \<leftarrow> load vec i; store vec i (x * scalar) }) vec"

definition fma_baseline ::
  "'a::{plus,times} list \<Rightarrow> 'a list \<Rightarrow> 'a list \<Rightarrow> 'a list \<Rightarrow> int \<Rightarrow> 'a list option" where
  "fma_baseline a b c result n =
     for_loop 0 n 1 (\<lambda>i result. do {
       x \<leftarrow> load a i; y \<leftarrow> load b i; z \<leftarrow> load c i;
       store result i (x * y + z) }) result"

section \<open>Two-dimensional matrix multiply and its dispatch (src/hardware/simd\_kernels.cpp)\<close>

text \<open>
  \<open>buf[i * n + k]\<close> as an operand and as the target of an assignment: the index
  is computed on \<open>int\<close>, then the buffer is accessed.
\<close>

definition mul_add :: "int \<Rightarrow> int \<Rightarrow> int \<Rightarrow> int option" where
  "mul_add i n k = do { p \<leftarrow> int_mul i n; int_add p k }"

definition load_at :: "'a list \<Rightarrow> int \<Rightarrow> int \<Rightarrow> int \<Rightarrow> 'a option" where
  "load_at buf i n k = do { idx \<leftarrow> mul_add i n k; load buf idx }"

definition store_at :: "'a list \<Rightarrow> int \<Rightarrow> int \<Rightarrow> int \<Rightarrow> 'a \<Rightarrow> 'a list option" where
  "store_at buf i n k v = do { idx \<leftarrow> mul_add i n k; store buf idx v }"

definition matrix_multiply ::
  "'a::{plus,times,zero} list \<Rightarrow> 'a list \<Rightarrow> 'a list \<Rightarrow> int \<Rightarrow> int \<Rightarrow> int \<Rightarrow> 'a list option" where
  "matrix_multiply A B C rows_a cols_a cols_b =
     for_loop 0 rows_a 1 (\<lambda>i C.
       for_loop 0 cols_b 1 (\<lambda>j C. do {
         sum \<leftarrow> for_loop 0 cols_a 1 (\<lambda>k sum. do {
                  a \<leftarrow> load_at A i cols_a k;
                  b \<leftarrow> load_at B k cols_b j;
                  Some (sum + a * b) }) 0;
         store_at C i cols_b j sum }) C) C"

text \<open>
  \<open>memset(C, 0, rows_a * cols_b * sizeof(float))\<close>: the product \<open>rows_a * cols_b\<close>
  is an \<open>int\<close>; the first that many elements become \<open>0.0f\<close>. The count is converted
  to \<open>size_t\<close>, so a negative product asks for more bytes than any buffer holds.
\<close>

definition memset0 :: "'a::zero list \<Rightarrow> int \<Rightarrow> 'a list option" where
  "memset0 C n =
     (if 0 \<le> n \<and> n \<le> int (length C)
      then Some (replicate (nat n) 0 @ drop (nat n) C) else None)"

definition block_size :: int where
  "block_size = 32"

definition matrix_multiply_optimized ::
  "'a::{plus,times,zero} list \<Rightarrow> 'a list \<Rightarrow> 'a list \<Rightarrow> int \<Rightarrow> int \<Rightarrow> int \<Rightarrow> string
     \<Rightarrow> 'a list option" where
  "matrix_multiply_optimized A B C rows_a cols_a cols_b simd_type = do {
     count \<leftarrow> int_mul rows_a cols_b;
     C \<leftarrow> memset0 C count;
     for_loop 0 rows_a block_size (\<lambda>i C.
       for_loop 0 cols_b block_size (\<lambda>j C.
         for_loop 0 cols_a block_size (\<lambda>k C. do {
           i_next \<leftarrow> int_add i block_size;
           let i_end = (if i_next < rows_a then i_next else rows_a);
           j_next \<leftarrow> int_add j block_size;
           let j_end = (if j_next < cols_b then j_next else cols_b);
           k_next \<leftarrow> int_add k block_size;
           let k_end = (if k_next < cols_a then k_next else cols_a);
           for_loop i i_end 1 (\<lambda>ii C.
             for_loop j j_end 1 (\<lambda>jj C. do {
               sum \<leftarrow> load_at C ii cols_b jj;
               sum \<leftarrow> for_loop k k_end 1 (\<lambda>kk sum. do {
                        a \<leftarrow> load_at A ii cols_a kk;
                        b \<leftarrow> load_at B kk cols_b jj;
                        Some (sum + a * b) }) sum;
               store_at C ii cols_b jj sum }) C) C }) C) C) C }"

text \<open>
  The instruction-set macros of a build. The automatic branch of
  \<open>dispatch_matrix_multiply\<close> is an \<open>#if/#elif\<close> chain over them.
\<close>

record simd_macros =
  AVX512F :: bool
  AVX2 :: bool
  AVX :: bool
  SSE4_2 :: bool
  ARM_NEON :: bool

text \<open>
  \<open>dispatch_matrix_multiply\<close> consists of one call statement per branch. The call
  statements are values of \<open>kernel_call\<close>; \<open>dispatch_matrix_multiply_call\<close> is the
  branch structure of the function (the test of \<open>simd_type\<close>, then the \<open>#if/#elif\<close>
  chain, which leaves exactly one call in the compiled function), and \<open>run_call\<close>
  executes the call statement reached.
\<close>

datatype kernel_call = Call_matrix_multiply_optimized string | Call_matrix_multiply

definition dispatch_matrix_multiply_call :: "simd_macros \<Rightarrow> string option \<Rightarrow> kernel_call" where
  "dispatch_matrix_multiply_call m simd_type =
     (case simd_type of
        Some t \<Rightarrow> Call_matrix_multiply_optimized t
      | None \<Rightarrow>
          if AVX512F m then Call_matrix_multiply_optimized ''avx512''
          else if AVX2 m then Call_matrix_multiply_optimized ''avx2''
          else if AVX m then Call_matrix_multiply_optimized ''avx''
          else if SSE4_2 m then Call_matrix_multiply_optimized ''sse42''
          else if ARM_NEON m then Call_matrix_multiply_optimized ''neon''
          else Call_matrix_multiply)"

fun run_call ::
  "kernel_call \<Rightarrow> 'a::{plus,times,zero} list \<Rightarrow> 'a list \<Rightarrow> 'a list \<Rightarrow> int \<Rightarrow> int \<Rightarrow> int
     \<Rightarrow> 'a list option" where
  "run_call (Call_matrix_multiply_optimized t) A B C rows_a cols_a cols_b =
     matrix_multiply_optimized A B C rows_a cols_a cols_b t"
| "run_call Call_matrix_multiply A B C rows_a cols_a cols_b =
     matrix_multiply A B C rows_a cols_a cols_b"

definition dispatch_matrix_multiply ::
  "simd_macros \<Rightarrow> 'a::{plus,times,zero} list \<Rightarrow> 'a list \<Rightarrow> 'a list \<Rightarrow> int \<Rightarrow> int \<Rightarrow> int
     \<Rightarrow> string option \<Rightarrow> 'a list option" where
  "dispatch_matrix_multiply m A B C rows_a cols_a cols_b simd_type =
     run_call (dispatch_matrix_multiply_call m simd_type) A B C rows_a cols_a cols_b"






section \<open>Platform kernels (src/hardware/assembly\_kernels.cpp)\<close>

text \<open>
  The header \<open>assembly_kernels.h\<close> defines exactly one \<open>PLATFORM_*\<close> and one
  \<open>ARCH_*\<close> macro, or none. A build is these two choices, the compiler's \<open>__APPLE__\<close>
  and instruction-set macros, and, for a build that links Apple's Accelerate framework,
  the three library routines the kernels hand their work to. The routines are not code
  of the repository: they are parameters of the model. The element count \<open>size\<close> of
  the source is written \<open>size'\<close>.
\<close>

datatype platform =
  PLATFORM_WINDOWS | PLATFORM_MACOS | PLATFORM_LINUX | PLATFORM_ANDROID | PLATFORM_UNKNOWN

datatype arch = ARCH_X86_64 | ARCH_X86 | ARCH_ARM | ARCH_ARM64 | ARCH_UNKNOWN

record 'a build = simd_macros +
  platform :: platform
  arch :: arch
  APPLE :: bool
  vDSP_vadd :: "'a list \<Rightarrow> 'a list \<Rightarrow> 'a list \<Rightarrow> int \<Rightarrow> 'a list option"
  vDSP_dotpr :: "'a list \<Rightarrow> 'a list \<Rightarrow> int \<Rightarrow> 'a option"
  vDSP_vsmul :: "'a list \<Rightarrow> 'a \<Rightarrow> 'a list \<Rightarrow> int \<Rightarrow> 'a list option"

text \<open>\<open>for (; i <= n; i += step) body\<close>.\<close>

definition loop_from_le ::
  "int \<Rightarrow> int \<Rightarrow> int \<Rightarrow> (int \<Rightarrow> 's \<Rightarrow> 's option) \<Rightarrow> 's \<Rightarrow> (int \<times> 's) option" where
  "loop_from_le i n step body s = loop_from i (n + 1) step body s"

text \<open>
  The intrinsics of the horizontal sums, on registers as lists of lanes (Intel's and
  Arm's instruction references give their lane semantics).
\<close>

definition MM_SHUFFLE :: "nat \<Rightarrow> nat \<Rightarrow> nat \<Rightarrow> nat \<Rightarrow> nat" where
  "MM_SHUFFLE z y x w = z * 64 + y * 16 + x * 4 + w"

definition mm_shuffle_ps :: "'a list \<Rightarrow> 'a list \<Rightarrow> nat \<Rightarrow> 'a list" where
  "mm_shuffle_ps a b imm =
     [a ! (imm mod 4), a ! (imm div 4 mod 4), b ! (imm div 16 mod 4), b ! (imm div 64 mod 4)]"

definition mm_movehl_ps :: "'a list \<Rightarrow> 'a list \<Rightarrow> 'a list" where
  "mm_movehl_ps a b = [b ! 2, b ! 3, a ! 2, a ! 3]"

definition mm_add_ps :: "'a::plus list \<Rightarrow> 'a list \<Rightarrow> 'a list" where
  "mm_add_ps a b = map2 (+) a b"

definition mm_mul_ps :: "'a::times list \<Rightarrow> 'a list \<Rightarrow> 'a list" where
  "mm_mul_ps a b = map2 (*) a b"

definition mm_add_ss :: "'a::plus list \<Rightarrow> 'a list \<Rightarrow> 'a list" where
  "mm_add_ss a b = [a ! 0 + b ! 0, a ! 1, a ! 2, a ! 3]"

definition mm_store_ss :: "'a list \<Rightarrow> 'a" where
  "mm_store_ss a = a ! 0"

definition mm256_extractf128_ps :: "'a list \<Rightarrow> nat \<Rightarrow> 'a list" where
  "mm256_extractf128_ps a imm = (if imm = 0 then take 4 a else drop 4 a)"

definition vmlaq_f32 :: "'a::{plus,times} list \<Rightarrow> 'a list \<Rightarrow> 'a list \<Rightarrow> 'a list" where
  "vmlaq_f32 acc a b = map2 (+) acc (map2 (*) a b)"

definition vget_low_f32 :: "'a list \<Rightarrow> 'a list" where
  "vget_low_f32 a = take 2 a"

definition vget_high_f32 :: "'a list \<Rightarrow> 'a list" where
  "vget_high_f32 a = drop 2 a"

definition vadd_f32 :: "'a::plus list \<Rightarrow> 'a list \<Rightarrow> 'a list" where
  "vadd_f32 a b = map2 (+) a b"

definition vpadd_f32 :: "'a::plus list \<Rightarrow> 'a list \<Rightarrow> 'a list" where
  "vpadd_f32 a b = [a ! 0 + a ! 1, b ! 0 + b ! 1]"

definition vget_lane_f32 :: "'a list \<Rightarrow> nat \<Rightarrow> 'a" where
  "vget_lane_f32 a lane = a ! lane"

definition asm_matrix_add ::
  "'b build \<Rightarrow> 'b::plus list \<Rightarrow> 'b::plus list \<Rightarrow> 'b::plus list \<Rightarrow> int \<Rightarrow> 'b::plus list option" where
  "asm_matrix_add bld A B C size' =
     (if platform bld = PLATFORM_MACOS \<and> APPLE bld then vDSP_vadd bld A B C size'
      else if arch bld = ARCH_X86_64 \<and> AVX2 bld then
        do {
          limit \<leftarrow> int_sub size' 8;
          (i, C) \<leftarrow> loop_from_le 0 limit 8 (\<lambda>i C. do {
                      a \<leftarrow> loadu 8 A i;
                      b \<leftarrow> loadu 8 B i;
                      storeu C i (map2 (+) a b) }) C;
          for_loop i size' 1 (\<lambda>i C. do {
            a \<leftarrow> load A i; b \<leftarrow> load B i; store C i (a + b) }) C }
      else if arch bld = ARCH_X86_64 \<and> SSE4_2 bld then
        do {
          limit \<leftarrow> int_sub size' 4;
          (i, C) \<leftarrow> loop_from_le 0 limit 4 (\<lambda>i C. do {
                      a \<leftarrow> loadu 4 A i;
                      b \<leftarrow> loadu 4 B i;
                      storeu C i (map2 (+) a b) }) C;
          for_loop i size' 1 (\<lambda>i C. do {
            a \<leftarrow> load A i; b \<leftarrow> load B i; store C i (a + b) }) C }
      else if arch bld = ARCH_ARM \<or> arch bld = ARCH_ARM64 then
        (if ARM_NEON bld then
           do {
             limit \<leftarrow> int_sub size' 4;
             (i, C) \<leftarrow> loop_from_le 0 limit 4 (\<lambda>i C. do {
                         a \<leftarrow> loadu 4 A i;
                         b \<leftarrow> loadu 4 B i;
                         storeu C i (map2 (+) a b) }) C;
             for_loop i size' 1 (\<lambda>i C. do {
               a \<leftarrow> load A i; b \<leftarrow> load B i; store C i (a + b) }) C }
         else
           for_loop 0 size' 1 (\<lambda>i C. do {
             a \<leftarrow> load A i; b \<leftarrow> load B i; store C i (a + b) }) C)
      else
        for_loop 0 size' 1 (\<lambda>i C. do {
          a \<leftarrow> load A i; b \<leftarrow> load B i; store C i (a + b) }) C)"

definition asm_vector_dot ::
  "'b build \<Rightarrow> 'b::{plus,times,zero} list \<Rightarrow> 'b list \<Rightarrow> int \<Rightarrow> 'b option" where
  "asm_vector_dot bld A B size' =
     (let result = 0
      in if platform bld = PLATFORM_MACOS \<and> APPLE bld then vDSP_dotpr bld A B size'
      else if arch bld = ARCH_X86_64 \<and> AVX2 bld then
        do {
          limit \<leftarrow> int_sub size' 8;
          (i, sum) \<leftarrow> loop_from_le 0 limit 8 (\<lambda>i sum. do {
                        a \<leftarrow> loadu 8 A i;
                        b \<leftarrow> loadu 8 B i;
                        Some (mm_add_ps sum (mm_mul_ps a b)) }) (replicate 8 0);
          let sum128 = mm_add_ps (mm256_extractf128_ps sum 0) (mm256_extractf128_ps sum 1);
          let sum64 = mm_add_ps sum128 (mm_movehl_ps sum128 sum128);
          let sum32 = mm_add_ss sum64 (mm_shuffle_ps sum64 sum64 1);
          let temp = mm_store_ss sum32;
          let result = result + temp;
          for_loop i size' 1 (\<lambda>i result. do {
            a \<leftarrow> load A i; b \<leftarrow> load B i; Some (result + a * b) }) result }
      else if arch bld = ARCH_X86_64 \<and> SSE4_2 bld then
        do {
          limit \<leftarrow> int_sub size' 4;
          (i, sum) \<leftarrow> loop_from_le 0 limit 4 (\<lambda>i sum. do {
                        a \<leftarrow> loadu 4 A i;
                        b \<leftarrow> loadu 4 B i;
                        Some (mm_add_ps sum (mm_mul_ps a b)) }) (replicate 4 0);
          let shuf = mm_shuffle_ps sum sum (MM_SHUFFLE 2 3 0 1);
          let sums' = mm_add_ps sum shuf;
          let shuf = mm_movehl_ps shuf sums';
          let sums' = mm_add_ss sums' shuf;
          let temp = mm_store_ss sums';
          let result = result + temp;
          for_loop i size' 1 (\<lambda>i result. do {
            a \<leftarrow> load A i; b \<leftarrow> load B i; Some (result + a * b) }) result }
      else if arch bld = ARCH_ARM \<or> arch bld = ARCH_ARM64 then
        (if ARM_NEON bld then
           do {
             limit \<leftarrow> int_sub size' 4;
             (i, sum_vec) \<leftarrow> loop_from_le 0 limit 4 (\<lambda>i sum_vec. do {
                               a \<leftarrow> loadu 4 A i;
                               b \<leftarrow> loadu 4 B i;
                               Some (vmlaq_f32 sum_vec a b) }) (replicate 4 0);
             let sum_low = vget_low_f32 sum_vec;
             let sum_high = vget_high_f32 sum_vec;
             let sum_low = vadd_f32 sum_low sum_high;
             let sum_low = vpadd_f32 sum_low sum_low;
             let result = result + vget_lane_f32 sum_low 0;
             for_loop i size' 1 (\<lambda>i result. do {
               a \<leftarrow> load A i; b \<leftarrow> load B i; Some (result + a * b) }) result }
         else
           for_loop 0 size' 1 (\<lambda>i result. do {
             a \<leftarrow> load A i; b \<leftarrow> load B i; Some (result + a * b) }) result)
      else
        for_loop 0 size' 1 (\<lambda>i result. do {
          a \<leftarrow> load A i; b \<leftarrow> load B i; Some (result + a * b) }) result)"

definition asm_vector_scale ::
  "'b build \<Rightarrow> 'b::times list \<Rightarrow> 'b list \<Rightarrow> 'b \<Rightarrow> int \<Rightarrow> 'b list option" where
  "asm_vector_scale bld A B scalar size' =
     (if platform bld = PLATFORM_MACOS \<and> APPLE bld then vDSP_vsmul bld A scalar B size'
      else if arch bld = ARCH_X86_64 \<and> AVX2 bld then
        do {
          let scalar_vec = replicate 8 scalar;
          limit \<leftarrow> int_sub size' 8;
          (i, B) \<leftarrow> loop_from_le 0 limit 8 (\<lambda>i B. do {
                      a \<leftarrow> loadu 8 A i;
                      storeu B i (map2 (*) a scalar_vec) }) B;
          for_loop i size' 1 (\<lambda>i B. do { a \<leftarrow> load A i; store B i (a * scalar) }) B }
      else if arch bld = ARCH_X86_64 \<and> SSE4_2 bld then
        do {
          let scalar_vec = replicate 4 scalar;
          limit \<leftarrow> int_sub size' 4;
          (i, B) \<leftarrow> loop_from_le 0 limit 4 (\<lambda>i B. do {
                      a \<leftarrow> loadu 4 A i;
                      storeu B i (map2 (*) a scalar_vec) }) B;
          for_loop i size' 1 (\<lambda>i B. do { a \<leftarrow> load A i; store B i (a * scalar) }) B }
      else if arch bld = ARCH_ARM \<or> arch bld = ARCH_ARM64 then
        (if ARM_NEON bld then
           do {
             let scalar_vec = replicate 4 scalar;
             limit \<leftarrow> int_sub size' 4;
             (i, B) \<leftarrow> loop_from_le 0 limit 4 (\<lambda>i B. do {
                         a \<leftarrow> loadu 4 A i;
                         storeu B i (map2 (*) a scalar_vec) }) B;
             for_loop i size' 1 (\<lambda>i B. do { a \<leftarrow> load A i; store B i (a * scalar) }) B }
         else
           for_loop 0 size' 1 (\<lambda>i B. do { a \<leftarrow> load A i; store B i (a * scalar) }) B)
      else
        for_loop 0 size' 1 (\<lambda>i B. do { a \<leftarrow> load A i; store B i (a * scalar) }) B)"

text \<open>The elements of the bitwise kernels are C's 32-bit \<open>int\<close>.\<close>

type_synonym int32_t = "32 word"

definition asm_vector_bitwise_or ::
  "'b build \<Rightarrow> int32_t list \<Rightarrow> int32_t list \<Rightarrow> int32_t list \<Rightarrow> int \<Rightarrow> int32_t list option" where
  "asm_vector_bitwise_or bld A B C size' =
     (if arch bld = ARCH_X86_64 \<and> AVX2 bld then
        do {
          limit \<leftarrow> int_sub size' 8;
          (i, C) \<leftarrow> loop_from_le 0 limit 8 (\<lambda>i C. do {
                      a \<leftarrow> loadu 8 A i;
                      b \<leftarrow> loadu 8 B i;
                      storeu C i (map2 (OR) a b) }) C;
          for_loop i size' 1 (\<lambda>i C. do {
            a \<leftarrow> load A i; b \<leftarrow> load B i; store C i (a OR b) }) C }
      else if arch bld = ARCH_X86_64 \<and> SSE4_2 bld then
        do {
          limit \<leftarrow> int_sub size' 4;
          (i, C) \<leftarrow> loop_from_le 0 limit 4 (\<lambda>i C. do {
                      a \<leftarrow> loadu 4 A i;
                      b \<leftarrow> loadu 4 B i;
                      storeu C i (map2 (OR) a b) }) C;
          for_loop i size' 1 (\<lambda>i C. do {
            a \<leftarrow> load A i; b \<leftarrow> load B i; store C i (a OR b) }) C }
      else if arch bld = ARCH_ARM \<or> arch bld = ARCH_ARM64 then
        (if ARM_NEON bld then
           do {
             limit \<leftarrow> int_sub size' 4;
             (i, C) \<leftarrow> loop_from_le 0 limit 4 (\<lambda>i C. do {
                         a \<leftarrow> loadu 4 A i;
                         b \<leftarrow> loadu 4 B i;
                         storeu C i (map2 (OR) a b) }) C;
             for_loop i size' 1 (\<lambda>i C. do {
               a \<leftarrow> load A i; b \<leftarrow> load B i; store C i (a OR b) }) C }
         else
           for_loop 0 size' 1 (\<lambda>i C. do {
             a \<leftarrow> load A i; b \<leftarrow> load B i; store C i (a OR b) }) C)
      else
        for_loop 0 size' 1 (\<lambda>i C. do {
          a \<leftarrow> load A i; b \<leftarrow> load B i; store C i (a OR b) }) C)"

definition asm_vector_bitwise_and ::
  "'b build \<Rightarrow> int32_t list \<Rightarrow> int32_t list \<Rightarrow> int32_t list \<Rightarrow> int \<Rightarrow> int32_t list option" where
  "asm_vector_bitwise_and bld A B C size' =
     (if arch bld = ARCH_X86_64 \<and> AVX2 bld then
        do {
          limit \<leftarrow> int_sub size' 8;
          (i, C) \<leftarrow> loop_from_le 0 limit 8 (\<lambda>i C. do {
                      a \<leftarrow> loadu 8 A i;
                      b \<leftarrow> loadu 8 B i;
                      storeu C i (map2 (AND) a b) }) C;
          for_loop i size' 1 (\<lambda>i C. do {
            a \<leftarrow> load A i; b \<leftarrow> load B i; store C i (a AND b) }) C }
      else if arch bld = ARCH_X86_64 \<and> SSE4_2 bld then
        do {
          limit \<leftarrow> int_sub size' 4;
          (i, C) \<leftarrow> loop_from_le 0 limit 4 (\<lambda>i C. do {
                      a \<leftarrow> loadu 4 A i;
                      b \<leftarrow> loadu 4 B i;
                      storeu C i (map2 (AND) a b) }) C;
          for_loop i size' 1 (\<lambda>i C. do {
            a \<leftarrow> load A i; b \<leftarrow> load B i; store C i (a AND b) }) C }
      else if arch bld = ARCH_ARM \<or> arch bld = ARCH_ARM64 then
        (if ARM_NEON bld then
           do {
             limit \<leftarrow> int_sub size' 4;
             (i, C) \<leftarrow> loop_from_le 0 limit 4 (\<lambda>i C. do {
                         a \<leftarrow> loadu 4 A i;
                         b \<leftarrow> loadu 4 B i;
                         storeu C i (map2 (AND) a b) }) C;
             for_loop i size' 1 (\<lambda>i C. do {
               a \<leftarrow> load A i; b \<leftarrow> load B i; store C i (a AND b) }) C }
         else
           for_loop 0 size' 1 (\<lambda>i C. do {
             a \<leftarrow> load A i; b \<leftarrow> load B i; store C i (a AND b) }) C)
      else
        for_loop 0 size' 1 (\<lambda>i C. do {
          a \<leftarrow> load A i; b \<leftarrow> load B i; store C i (a AND b) }) C)"

text \<open>
  Which branch of the \<open>#if/#elif\<close> chain of a kernel a build compiles:
  \<open>uses_accelerate\<close> is the first test of the floating-point kernels,
  \<open>simd_path\<close> the rest of the chain (the whole chain of the bitwise kernels), and
  \<open>path_build\<close> a Linux build that compiles the given branch.
\<close>

datatype simd_path = Path_AVX2 | Path_SSE42 | Path_NEON | Path_ARM_scalar | Path_generic

definition simd_path :: "'a build \<Rightarrow> simd_path" where
  "simd_path bld =
     (if arch bld = ARCH_X86_64 \<and> AVX2 bld then Path_AVX2
      else if arch bld = ARCH_X86_64 \<and> SSE4_2 bld then Path_SSE42
      else if arch bld = ARCH_ARM \<or> arch bld = ARCH_ARM64 then
        (if ARM_NEON bld then Path_NEON else Path_ARM_scalar)
      else Path_generic)"

definition uses_accelerate :: "'a build \<Rightarrow> bool" where
  "uses_accelerate bld \<longleftrightarrow> platform bld = PLATFORM_MACOS \<and> APPLE bld"

fun path_build :: "simd_path \<Rightarrow> 'a build" where
  "path_build p =
     \<lparr>AVX512F = False, AVX2 = (p = Path_AVX2), AVX = False, SSE4_2 = (p = Path_SSE42),
      ARM_NEON = (p = Path_NEON),
      platform = PLATFORM_LINUX,
      arch = (if p = Path_AVX2 \<or> p = Path_SSE42 then ARCH_X86_64
              else if p = Path_NEON \<or> p = Path_ARM_scalar then ARCH_ARM64 else ARCH_UNKNOWN),
      APPLE = False,
      vDSP_vadd = (\<lambda>_ _ _ _. None), vDSP_dotpr = (\<lambda>_ _ _. None),
      vDSP_vsmul = (\<lambda>_ _ _ _. None)\<rparr>"

text \<open>
  \<open>get_assembly_optimization_level\<close>: the level of this file is fixed by the macros
  of the build where one of them is defined, and by two raw \<open>cpuid\<close> queries
  otherwise. The second argument says whether \<open>_MSC_VER\<close> is defined.
\<close>

definition get_assembly_optimization_level :: "'a build \<Rightarrow> bool \<Rightarrow> cpu \<Rightarrow> int" where
  "get_assembly_optimization_level bld msc_ver c =
     (let level = 0;
          level =
            (if arch bld = ARCH_X86_64 \<or> arch bld = ARCH_X86 then
               (if AVX2 bld then 2
                else if AVX bld \<or> SSE4_2 bld then 1
                else if msc_ver then
                  (if bit_set (ecx (cpuid c 1)) 28 then 2
                   else if bit_set (ecx (cpuid c 1)) 19 then 1 else level)
                else
                  (let level = (if bit_set (ecx (cpuid c 1)) 19 then 1 else level)
                   in if bit_set (ebx (cpuid c 7)) 5 then 2 else level))
             else if arch bld = ARCH_ARM64 then 2
             else if arch bld = ARCH_ARM then (if ARM_NEON bld then 1 else level)
             else level);
          level = (if platform bld = PLATFORM_MACOS then 2 else level)
      in level)"

section \<open>Reference values for the elementwise kernels\<close>

text \<open>
  The output buffer an elementwise kernel is to leave: the first \<open>n\<close> elements are
  \<open>f (A[k]) (B[k])\<close>, respectively \<open>A[k] * scalar\<close>, and the elements from index
  \<open>n\<close> on are those the buffer had.
\<close>

definition elementwise :: "('a \<Rightarrow> 'a \<Rightarrow> 'a) \<Rightarrow> 'a list \<Rightarrow> 'a list \<Rightarrow> 'a list \<Rightarrow> int \<Rightarrow> 'a list" where
  "elementwise f A B C n = map (\<lambda>k. f (A ! nat k) (B ! nat k)) [0..n - 1] @ drop (nat n) C"

definition scaled :: "'a::times list \<Rightarrow> 'a list \<Rightarrow> 'a \<Rightarrow> int \<Rightarrow> 'a list" where
  "scaled A B scalar n = map (\<lambda>k. A ! nat k * scalar) [0..n - 1] @ drop (nat n) B"

section \<open>Reference values for the matrix kernels\<close>

text \<open>
  \<open>dot_prefix A B K N i j k\<close> is the sum of the first \<open>k\<close> products of row \<open>i\<close> of
  \<open>A\<close> (\<open>K\<close> columns) and column \<open>j\<close> of \<open>B\<close> (\<open>N\<close> columns), added from the
  left in the order of the index, starting from \<open>0\<close>. \<open>gemm\<close> is the row-major
  product matrix whose entry \<open>(i, j)\<close> is the full sum. \<open>shapes\<close> says that the input
  buffers hold exactly the two matrices and that the dimensions, a block beyond them and
  the three element counts are values of \<open>int\<close>.
\<close>

definition dot_prefix :: "'a::{plus,times,zero} list \<Rightarrow> 'a list \<Rightarrow> int \<Rightarrow> int \<Rightarrow> int \<Rightarrow> int \<Rightarrow> int \<Rightarrow> 'a" where
  "dot_prefix A B K N i j k =
     foldl (\<lambda>s kk. s + A ! nat (i * K + kk) * B ! nat (kk * N + j)) 0 [0..k - 1]"

definition gemm :: "'a::{plus,times,zero} list \<Rightarrow> 'a list \<Rightarrow> int \<Rightarrow> int \<Rightarrow> int \<Rightarrow> 'a list" where
  "gemm A B M K N =
     map (\<lambda>idx. dot_prefix A B K N (int idx div N) (int idx mod N) K) [0..<nat (M * N)]"

definition shapes :: "'a list \<Rightarrow> 'a list \<Rightarrow> int \<Rightarrow> int \<Rightarrow> int \<Rightarrow> bool" where
  "shapes A B M K N \<longleftrightarrow>
     0 \<le> M \<and> 0 \<le> K \<and> 0 \<le> N \<and>
     M + block_size \<le> INT_MAX \<and> K + block_size \<le> INT_MAX \<and> N + block_size \<le> INT_MAX \<and>
     M * K \<le> INT_MAX \<and> K * N \<le> INT_MAX \<and> M * N \<le> INT_MAX \<and>
     int (length A) = M * K \<and> int (length B) = K * N"

text \<open>
  The state of the output buffer inside the loop nests, for the proofs:
  \<open>partial_product\<close> says that entry \<open>(i, j)\<close> holds the first \<open>P i j\<close> terms of its
  sum, \<open>done_cells\<close> that the entries selected by \<open>D\<close> hold their full sum, and
  \<open>upd_block\<close> sets the progress of a rectangle of entries.
\<close>

definition partial_product ::
  "'a::{plus,times,zero} list \<Rightarrow> 'a list \<Rightarrow> int \<Rightarrow> int \<Rightarrow> int \<Rightarrow> (int \<Rightarrow> int \<Rightarrow> int) \<Rightarrow> 'a list \<Rightarrow> bool" where
  "partial_product A B M K N P C \<longleftrightarrow>
     int (length C) = M * N \<and>
     (\<forall>i j. 0 \<le> i \<and> i < M \<and> 0 \<le> j \<and> j < N \<longrightarrow>
        C ! nat (i * N + j) = dot_prefix A B K N i j (P i j))"

definition done_cells ::
  "'a::{plus,times,zero} list \<Rightarrow> 'a list \<Rightarrow> int \<Rightarrow> int \<Rightarrow> int \<Rightarrow> (int \<Rightarrow> int \<Rightarrow> bool) \<Rightarrow> 'a list \<Rightarrow> bool" where
  "done_cells A B M K N D C \<longleftrightarrow>
     int (length C) = M * N \<and>
     (\<forall>i j. 0 \<le> i \<and> i < M \<and> 0 \<le> j \<and> j < N \<and> D i j \<longrightarrow>
        C ! nat (i * N + j) = dot_prefix A B K N i j K)"

definition upd_block ::
  "(int \<Rightarrow> int \<Rightarrow> int) \<Rightarrow> int \<Rightarrow> int \<Rightarrow> int \<Rightarrow> int \<Rightarrow> int \<Rightarrow> int \<Rightarrow> int \<Rightarrow> int" where
  "upd_block P i i_end j j_end v =
     (\<lambda>i' j'. if i \<le> i' \<and> i' < i_end \<and> j \<le> j' \<and> j' < j_end then v else P i' j')"

section \<open>Theorems\<close>

subsection \<open>Loops and buffer accesses\<close>

lemma int_add_in: "INT_MIN \<le> x + y \<Longrightarrow> x + y \<le> INT_MAX \<Longrightarrow> int_add x y = Some (x + y)"
  by (simp add: int_add_def)

lemma int_sub_in: "INT_MIN \<le> x - y \<Longrightarrow> x - y \<le> INT_MAX \<Longrightarrow> int_sub x y = Some (x - y)"
  by (simp add: int_sub_def)

lemma int_mul_in: "INT_MIN \<le> x * y \<Longrightarrow> x * y \<le> INT_MAX \<Longrightarrow> int_mul x y = Some (x * y)"
  by (simp add: int_mul_def)

text \<open>
  The rule for a loop with an invariant \<open>I\<close>: the body keeps it and returns, and the
  increment stays in the range of \<open>int\<close>; then the loop returns, in a state that
  satisfies the invariant at a counter that is no longer below the bound.
\<close>

lemma loop_from_rule:
  assumes "0 < step" and "I i s" and "INT_MIN \<le> i"
    and "\<And>j t. I j t \<Longrightarrow> j < n \<Longrightarrow> \<exists>t'. body j t = Some t' \<and> I (j + step) t'"
    and "\<And>j t. I j t \<Longrightarrow> j < n \<Longrightarrow> j + step \<le> INT_MAX"
  shows "\<exists>j t. loop_from i n step body s = Some (j, t) \<and> I j t \<and> n \<le> j"
  using assms
proof (induction i n step body s rule: loop_from.induct)
  case (1 i n step body s)
  show ?case
  proof (cases "i < n")
    case True
    from "1.prems"(4)[OF "1.prems"(2) True] obtain s' where
      s': "body i s = Some s'" "I (i + step) s'" by blast
    have add: "int_add i step = Some (i + step)"
      using "1.prems"(5)[OF "1.prems"(2) True] "1.prems"(1,3) by (simp add: int_add_def)
    have "\<exists>j t. loop_from (i + step) n step body s' = Some (j, t) \<and> I j t \<and> n \<le> j"
      using "1.IH"[of s' "i + step"] True "1.prems" s' add by simp
    then show ?thesis
      using True "1.prems"(1) s' add by (subst loop_from.simps) simp
  next
    case False
    then show ?thesis
      using "1.prems"(2) by (subst loop_from.simps) simp
  qed
qed

lemma for_loop_rule:
  assumes "0 < step" and "I i s" and "INT_MIN \<le> i"
    and "\<And>j t. I j t \<Longrightarrow> j < n \<Longrightarrow> \<exists>t'. body j t = Some t' \<and> I (j + step) t'"
    and "\<And>j t. I j t \<Longrightarrow> j < n \<Longrightarrow> j + step \<le> INT_MAX"
  shows "\<exists>j t. for_loop i n step body s = Some t \<and> I j t \<and> n \<le> j"
  using loop_from_rule[OF assms] unfolding for_loop_def by fastforce

lemma load_in:
  "0 \<le> i \<Longrightarrow> i < int (length buf) \<Longrightarrow> load buf i = Some (buf ! nat i)"
  by (simp add: load_def)

lemma store_in:
  "0 \<le> i \<Longrightarrow> i < int (length buf) \<Longrightarrow> store buf i v = Some (buf[nat i := v])"
  by (simp add: store_def)

subsection \<open>The two matrix multiplies compute the same product\<close>

lemma idx_less:
  fixes i j M N :: int
  assumes "0 \<le> i" "i < M" "0 \<le> j" "j < N"
  shows "i * N + j < M * N"
proof -
  have "(i + 1) * N \<le> M * N" using assms by (intro mult_right_mono) auto
  then show ?thesis using assms by (simp add: algebra_simps)
qed

lemma idx_nonneg:
  fixes i j N :: int
  assumes "0 \<le> i" "0 \<le> j" "0 \<le> N"
  shows "0 \<le> i * N + j"
  using assms by simp

lemma idx_inj:
  fixes i j i' j' N :: int
  assumes "0 \<le> j" "j < N" "0 \<le> j'" "j' < N" "i * N + j = i' * N + j'"
  shows "i = i' \<and> j = j'"
proof -
  have a: "(i * N + j) div N = i"
    using assms(1,2) by simp
  have b: "(i' * N + j') div N = i'"
    using assms(3,4) by simp
  have "(i * N + j) div N = (i' * N + j') div N"
    by (simp only: assms(5))
  then have "i = i'" by (simp only: a b)
  then show ?thesis using assms(5) by simp
qed

lemma dot_prefix_0: "dot_prefix A B K N i j 0 = 0"
  by (simp add: dot_prefix_def)

lemma dot_prefix_step:
  "0 \<le> k \<Longrightarrow>
   dot_prefix A B K N i j (k + 1) =
     dot_prefix A B K N i j k + A ! nat (i * K + k) * B ! nat (k * N + j)"
  by (simp add: dot_prefix_def upto_rec2)

lemma INT_MIN_le_0: "INT_MIN \<le> 0"
  by (simp add: INT_MIN_def)

lemma shapes_bounds:
  assumes "shapes A B M K N"
  shows "M + block_size \<le> INT_MAX" and "K + block_size \<le> INT_MAX"
    and "N + block_size \<le> INT_MAX"
    and "M \<le> INT_MAX" and "K \<le> INT_MAX" and "N \<le> INT_MAX"
  using assms by (simp_all add: shapes_def block_size_def)

lemma mul_add_in:
  assumes "0 \<le> i" and "0 \<le> n" and "0 \<le> k" and "i * n + k \<le> INT_MAX"
  shows "mul_add i n k = Some (i * n + k)"
proof -
  have "0 \<le> i * n" using assms by simp
  then have "INT_MIN \<le> i * n" and "i * n \<le> INT_MAX" and "INT_MIN \<le> i * n + k"
    using assms INT_MIN_le_0 by linarith+
  then show ?thesis
    using assms by (simp add: mul_add_def int_mul_def int_add_def)
qed

lemma load_at_in:
  assumes "0 \<le> i" and "0 \<le> n" and "0 \<le> k" and "i * n + k < int (length buf)"
    and "int (length buf) \<le> INT_MAX"
  shows "load_at buf i n k = Some (buf ! nat (i * n + k))"
  using assms by (simp add: load_at_def mul_add_in load_in)

lemma store_at_in:
  assumes "0 \<le> i" and "0 \<le> n" and "0 \<le> k" and "i * n + k < int (length buf)"
    and "int (length buf) \<le> INT_MAX"
  shows "store_at buf i n k v = Some (buf[nat (i * n + k) := v])"
  using assms by (simp add: store_at_def mul_add_in store_in)

lemma kk_loop:
  assumes sh: "shapes A B M K N"
    and ii: "0 \<le> ii" "ii < M" and jj: "0 \<le> jj" "jj < N"
    and k: "0 \<le> k" "k \<le> k_end" "k_end \<le> K"
  shows "for_loop k k_end 1 (\<lambda>kk sum. do {
             a \<leftarrow> load_at A ii K kk;
             b \<leftarrow> load_at B kk N jj;
             Some (sum + a * b) }) (dot_prefix A B K N ii jj k)
         = Some (dot_prefix A B K N ii jj k_end)"
proof -
  let ?body = "\<lambda>kk sum. do {
             a \<leftarrow> load_at A ii K kk;
             b \<leftarrow> load_at B kk N jj;
             Some (sum + a * b) }"
  let ?I = "\<lambda>kk s. k \<le> kk \<and> kk \<le> k_end \<and> s = dot_prefix A B K N ii jj kk"
  have step: "\<exists>t'. ?body kk t = Some t' \<and> ?I (kk + 1) t'" if "?I kk t" "kk < k_end" for kk t
  proof -
    have kk: "0 \<le> kk" "kk < K" using that k by auto
    have a: "load_at A ii K kk = Some (A ! nat (ii * K + kk))"
      using sh ii kk idx_less[of ii M kk K] by (intro load_at_in) (auto simp: shapes_def)
    have b: "load_at B kk N jj = Some (B ! nat (kk * N + jj))"
      using sh jj kk idx_less[of kk K jj N] by (intro load_at_in) (auto simp: shapes_def)
    show ?thesis using that kk by (simp add: a b dot_prefix_step)
  qed
  have "\<exists>j t. for_loop k k_end 1 ?body (dot_prefix A B K N ii jj k) = Some t \<and> ?I j t \<and> k_end \<le> j"
    by (rule for_loop_rule[where I = ?I])
      (use k step shapes_bounds[OF sh] INT_MIN_le_0 in auto)
  then obtain j t where r: "for_loop k k_end 1 ?body (dot_prefix A B K N ii jj k) = Some t"
    and "?I j t" "k_end \<le> j" by blast
  then have "j = k_end" by simp
  with \<open>?I j t\<close> r show ?thesis by simp
qed

lemma partial_product_cell:
  assumes sh: "shapes A B M K N"
    and pp: "partial_product A B M K N P C"
    and ii: "0 \<le> ii" "ii < M" and jj: "0 \<le> jj" "jj < N"
    and k: "P ii jj = k" "0 \<le> k" "k \<le> k_end" "k_end \<le> K"
  shows "\<exists>C'. do { sum \<leftarrow> load_at C ii N jj;
                 sum \<leftarrow> for_loop k k_end 1 (\<lambda>kk sum. do {
                a \<leftarrow> load_at A ii K kk;
                b \<leftarrow> load_at B kk N jj;
                Some (sum + a * b) }) sum;
                 store_at C ii N jj sum } = Some C' \<and>
           partial_product A B M K N (upd_block P ii (ii + 1) jj (jj + 1) k_end) C'"
  (is "\<exists>C'. ?cell = Some C' \<and> _")
proof -
  have len: "int (length C) = M * N" using pp by (simp add: partial_product_def)
  have lt: "ii * N + jj < int (length C)" "0 \<le> ii * N + jj"
    using idx_less[OF ii jj] ii jj len by auto
  have "0 \<le> N" and lenC: "int (length C) \<le> INT_MAX"
    using sh len by (simp_all add: shapes_def)
  then have ld: "load_at C ii N jj = Some (dot_prefix A B K N ii jj k)"
    using pp ii jj k(1) lt by (simp add: load_at_in partial_product_def)
  have st: "store_at C ii N jj v = Some (C[nat (ii * N + jj) := v])" for v
    using lt ii jj \<open>0 \<le> N\<close> lenC by (simp add: store_at_in)
  let ?C' = "C[nat (ii * N + jj) := dot_prefix A B K N ii jj k_end]"
  have run: "?cell = Some ?C'"
    by (simp add: ld kk_loop[OF sh ii jj k(2-4)] st)
  have "?C' ! nat (i * N + j) = dot_prefix A B K N i j (upd_block P ii (ii + 1) jj (jj + 1) k_end i j)"
    if r: "0 \<le> i" "i < M" "0 \<le> j" "j < N" for i j
  proof (cases "i = ii \<and> j = jj")
    case True
    then show ?thesis using lt by (simp add: upd_block_def)
  next
    case False
    then have "i * N + j \<noteq> ii * N + jj"
      using idx_inj[of j N jj i ii] r jj by blast
    moreover have "0 \<le> i * N + j" using r jj by simp
    ultimately have "nat (i * N + j) \<noteq> nat (ii * N + jj)"
      using lt(2) by linarith
    moreover have "upd_block P ii (ii + 1) jj (jj + 1) k_end i j = P i j"
      using False by (auto simp: upd_block_def)
    ultimately show ?thesis
      using pp r by (simp add: partial_product_def)
  qed
  then have "partial_product A B M K N (upd_block P ii (ii + 1) jj (jj + 1) k_end) ?C'"
    using len by (simp add: partial_product_def)
  with run show ?thesis by blast
qed

lemma upd_block_empty: "i_end \<le> i \<or> j_end \<le> j \<Longrightarrow> upd_block P i i_end j j_end v = P"
  by (auto simp: upd_block_def fun_eq_iff)

lemma upd_block_col:
  "j \<le> jj \<Longrightarrow>
   upd_block (upd_block P ii (ii + 1) j jj v) ii (ii + 1) jj (jj + 1) v =
   upd_block P ii (ii + 1) j (jj + 1) v"
  by (auto simp: upd_block_def fun_eq_iff)

lemma upd_block_row:
  "i \<le> ii \<Longrightarrow>
   upd_block (upd_block P i ii j j_end v) ii (ii + 1) j j_end v =
   upd_block P i (ii + 1) j j_end v"
  by (auto simp: upd_block_def fun_eq_iff)

lemma partial_product_jj:
  assumes sh: "shapes A B M K N"
    and pp: "partial_product A B M K N P C"
    and ii: "0 \<le> ii" "ii < M" and j: "0 \<le> j" "j \<le> j_end" "j_end \<le> N"
    and P: "\<And>j'. j \<le> j' \<Longrightarrow> j' < j_end \<Longrightarrow> P ii j' = k"
    and k: "0 \<le> k" "k \<le> k_end" "k_end \<le> K"
  shows "\<exists>C'. for_loop j j_end 1 (\<lambda>jj C. do {
              sum \<leftarrow> load_at C ii N jj;
              sum \<leftarrow> for_loop k k_end 1 (\<lambda>kk sum. do {
                a \<leftarrow> load_at A ii K kk;
                b \<leftarrow> load_at B kk N jj;
                Some (sum + a * b) }) sum;
              store_at C ii N jj sum }) C = Some C' \<and>
           partial_product A B M K N (upd_block P ii (ii + 1) j j_end k_end) C'"
  (is "\<exists>C'. for_loop j j_end 1 ?body C = Some C' \<and> _")
proof -
  let ?I = "\<lambda>jj C. j \<le> jj \<and> jj \<le> j_end \<and>
              partial_product A B M K N (upd_block P ii (ii + 1) j jj k_end) C"
  have step: "\<exists>C'. ?body jj C = Some C' \<and> ?I (jj + 1) C'"
    if "?I jj C" "jj < j_end" for jj C
  proof -
    have pk: "upd_block P ii (ii + 1) j jj k_end ii jj = k"
      using that P by (simp add: upd_block_def)
    have "\<exists>C'. ?body jj C = Some C' \<and>
           partial_product A B M K N
             (upd_block (upd_block P ii (ii + 1) j jj k_end) ii (ii + 1) jj (jj + 1) k_end) C'"
      by (rule partial_product_cell
          [where P = "upd_block P ii (ii + 1) j jj k_end" and k = k, OF sh _ ii _ _ pk k])
        (use that j in auto)
    then show ?thesis using that by (simp add: upd_block_col)
  qed
  have "\<exists>jj C'. for_loop j j_end 1 ?body C = Some C' \<and> ?I jj C' \<and> j_end \<le> jj"
    by (rule for_loop_rule[where I = ?I])
      (use j pp step shapes_bounds[OF sh] INT_MIN_le_0 in \<open>auto simp: upd_block_empty\<close>)
  then obtain jj C' where r: "for_loop j j_end 1 ?body C = Some C'"
    and "?I jj C'" "j_end \<le> jj" by blast
  then have "jj = j_end" by simp
  with \<open>?I jj C'\<close> r show ?thesis by blast
qed

lemma partial_product_ii:
  assumes sh: "shapes A B M K N"
    and pp: "partial_product A B M K N P C"
    and i: "0 \<le> i" "i \<le> i_end" "i_end \<le> M" and j: "0 \<le> j" "j \<le> j_end" "j_end \<le> N"
    and P: "\<And>i' j'. i \<le> i' \<Longrightarrow> i' < i_end \<Longrightarrow> j \<le> j' \<Longrightarrow> j' < j_end \<Longrightarrow> P i' j' = k"
    and k: "0 \<le> k" "k \<le> k_end" "k_end \<le> K"
  shows "\<exists>C'. for_loop i i_end 1 (\<lambda>ii C. for_loop j j_end 1 (\<lambda>jj C. do {
              sum \<leftarrow> load_at C ii N jj;
              sum \<leftarrow> for_loop k k_end 1 (\<lambda>kk sum. do {
                a \<leftarrow> load_at A ii K kk;
                b \<leftarrow> load_at B kk N jj;
                Some (sum + a * b) }) sum;
              store_at C ii N jj sum }) C) C = Some C' \<and>
           partial_product A B M K N (upd_block P i i_end j j_end k_end) C'"
  (is "\<exists>C'. for_loop i i_end 1 ?body C = Some C' \<and> _")
proof -
  let ?I = "\<lambda>ii C. i \<le> ii \<and> ii \<le> i_end \<and>
              partial_product A B M K N (upd_block P i ii j j_end k_end) C"
  have step: "\<exists>C'. ?body ii C = Some C' \<and> ?I (ii + 1) C'"
    if "?I ii C" "ii < i_end" for ii C
  proof -
    have pk: "upd_block P i ii j j_end k_end ii j' = k" if "j \<le> j'" "j' < j_end" for j'
      using that \<open>?I ii C\<close> \<open>ii < i_end\<close> P by (simp add: upd_block_def)
    have "\<exists>C'. ?body ii C = Some C' \<and>
           partial_product A B M K N
             (upd_block (upd_block P i ii j j_end k_end) ii (ii + 1) j j_end k_end) C'"
      by (rule partial_product_jj
          [where P = "upd_block P i ii j j_end k_end" and k = k, OF sh _ _ _ j pk k])
        (use that i in auto)
    then show ?thesis using that by (simp add: upd_block_row)
  qed
  have "\<exists>ii C'. for_loop i i_end 1 ?body C = Some C' \<and> ?I ii C' \<and> i_end \<le> ii"
    by (rule for_loop_rule[where I = ?I])
      (use i pp step shapes_bounds[OF sh] INT_MIN_le_0 in \<open>auto simp: upd_block_empty\<close>)
  then obtain ii C' where r: "for_loop i i_end 1 ?body C = Some C'"
    and "?I ii C'" "i_end \<le> ii" by blast
  then have "ii = i_end" by simp
  with \<open>?I ii C'\<close> r show ?thesis by blast
qed

lemma if_less_min: "(if a < b then a else b) = min a (b::int)"
  by auto

lemma upd_block_again:
  "upd_block (upd_block P i i_end j j_end v) i i_end j j_end w = upd_block P i i_end j j_end w"
  by (auto simp: upd_block_def fun_eq_iff)

lemma upd_block_cols:
  "j \<le> j' \<Longrightarrow>
   upd_block (upd_block P i i_end j0 j v) i i_end j j' v = upd_block P i i_end j0 j' v"
  if "j0 \<le> j"
  using that by (auto simp: upd_block_def fun_eq_iff)

lemma upd_block_rows:
  "i \<le> i' \<Longrightarrow>
   upd_block (upd_block P i0 i j j_end v) i i' j j_end v = upd_block P i0 i' j j_end v"
  if "i0 \<le> i"
  using that by (auto simp: upd_block_def fun_eq_iff)

lemma partial_product_kblocks:
  assumes sh: "shapes A B M K N"
    and pp: "partial_product A B M K N P C"
    and i: "0 \<le> i" "i < M" and j: "0 \<le> j" "j < N"
    and P: "\<And>i' j'. i \<le> i' \<Longrightarrow> i' < min (i + block_size) M \<Longrightarrow>
              j \<le> j' \<Longrightarrow> j' < min (j + block_size) N \<Longrightarrow> P i' j' = 0"
  shows "\<exists>C'. for_loop 0 K block_size (\<lambda>k C. do {
             i_next \<leftarrow> int_add i block_size;
             let i_end = (if i_next < M then i_next else M);
             j_next \<leftarrow> int_add j block_size;
             let j_end = (if j_next < N then j_next else N);
             k_next \<leftarrow> int_add k block_size;
             let k_end = (if k_next < K then k_next else K);
             for_loop i i_end 1 (\<lambda>ii C. for_loop j j_end 1 (\<lambda>jj C. do {
              sum \<leftarrow> load_at C ii N jj;
              sum \<leftarrow> for_loop k k_end 1 (\<lambda>kk sum. do {
                a \<leftarrow> load_at A ii K kk;
                b \<leftarrow> load_at B kk N jj;
                Some (sum + a * b) }) sum;
              store_at C ii N jj sum }) C) C }) C = Some C' \<and>
           partial_product A B M K N
             (upd_block P i (min (i + block_size) M) j (min (j + block_size) N) K) C'"
  (is "\<exists>C'. for_loop 0 K block_size ?body C = Some C' \<and> _")
proof -
  define ie where "ie = min (i + block_size) M"
  define je where "je = min (j + block_size) N"
  have ie: "i \<le> ie" "ie \<le> M" and je: "j \<le> je" "je \<le> N"
    using i j by (auto simp: ie_def je_def block_size_def)
  have K: "0 \<le> K" using sh by (simp add: shapes_def)
  let ?I = "\<lambda>k C. 0 \<le> k \<and> partial_product A B M K N (upd_block P i ie j je (min k K)) C"
  have step: "\<exists>C'. ?body k C = Some C' \<and> ?I (k + block_size) C'"
    if "?I k C" "k < K" for k C
  proof -
    define ke where "ke = min (k + block_size) K"
    have ke: "k \<le> ke" "ke \<le> K" using that by (auto simp: ke_def block_size_def)
    have mk: "min k K = k" using that by simp
    have pk: "upd_block P i ie j je k i' j' = k"
      if "i \<le> i'" "i' < ie" "j \<le> j'" "j' < je" for i' j'
      using that by (simp add: upd_block_def)
    have "\<exists>C'. for_loop i ie 1 (\<lambda>ii C. for_loop j je 1 (\<lambda>jj C. do {
              sum \<leftarrow> load_at C ii N jj;
              sum \<leftarrow> for_loop k ke 1 (\<lambda>kk sum. do {
                a \<leftarrow> load_at A ii K kk;
                b \<leftarrow> load_at B kk N jj;
                Some (sum + a * b) }) sum;
              store_at C ii N jj sum }) C) C = Some C' \<and>
           partial_product A B M K N (upd_block (upd_block P i ie j je k) i ie j je ke) C'"
      by (rule partial_product_ii
          [where P = "upd_block P i ie j je k" and k = k, OF sh _ i(1) ie j(1) je pk _ ke])
        (use that mk in auto)
    moreover have "0 \<le> k + block_size" using that by (simp add: block_size_def)
    moreover have "int_add i block_size = Some (i + block_size)"
      and "int_add j block_size = Some (j + block_size)"
      and "int_add k block_size = Some (k + block_size)"
      using that i j shapes_bounds[OF sh] INT_MIN_le_0
      by (simp_all add: int_add_def block_size_def)
    ultimately show ?thesis
      using that
      by (simp add: Let_def if_less_min upd_block_again ie_def[symmetric] je_def[symmetric]
          ke_def[symmetric])
  qed
  have P0: "upd_block P i ie j je 0 = P"
    using P by (auto simp: upd_block_def fun_eq_iff ie_def je_def)
  have "\<exists>k C'. for_loop 0 K block_size ?body C = Some C' \<and> ?I k C' \<and> K \<le> k"
    by (rule for_loop_rule[where I = ?I])
      (use K pp step P0 shapes_bounds[OF sh] INT_MIN_le_0 in \<open>auto simp: block_size_def\<close>)
  then obtain k C' where r: "for_loop 0 K block_size ?body C = Some C'"
    and "?I k C'" "K \<le> k" by blast
  then have "min k K = K" by simp
  with \<open>?I k C'\<close> r show ?thesis unfolding ie_def je_def by auto
qed

lemma partial_product_jblocks:
  assumes sh: "shapes A B M K N"
    and pp: "partial_product A B M K N P C"
    and i: "0 \<le> i" "i < M"
    and P: "\<And>i' j'. i \<le> i' \<Longrightarrow> i' < min (i + block_size) M \<Longrightarrow> P i' j' = 0"
  shows "\<exists>C'. for_loop 0 N block_size (\<lambda>j C. for_loop 0 K block_size (\<lambda>k C. do {
             i_next \<leftarrow> int_add i block_size;
             let i_end = (if i_next < M then i_next else M);
             j_next \<leftarrow> int_add j block_size;
             let j_end = (if j_next < N then j_next else N);
             k_next \<leftarrow> int_add k block_size;
             let k_end = (if k_next < K then k_next else K);
             for_loop i i_end 1 (\<lambda>ii C. for_loop j j_end 1 (\<lambda>jj C. do {
              sum \<leftarrow> load_at C ii N jj;
              sum \<leftarrow> for_loop k k_end 1 (\<lambda>kk sum. do {
                a \<leftarrow> load_at A ii K kk;
                b \<leftarrow> load_at B kk N jj;
                Some (sum + a * b) }) sum;
              store_at C ii N jj sum }) C) C }) C) C = Some C' \<and>
           partial_product A B M K N (upd_block P i (min (i + block_size) M) 0 N K) C'"
  (is "\<exists>C'. for_loop 0 N block_size ?body C = Some C' \<and> _")
proof -
  define ie where "ie = min (i + block_size) M"
  have N: "0 \<le> N" using sh by (simp add: shapes_def)
  let ?I = "\<lambda>j C. 0 \<le> j \<and> partial_product A B M K N (upd_block P i ie 0 (min j N) K) C"
  have step: "\<exists>C'. ?body j C = Some C' \<and> ?I (j + block_size) C'"
    if "?I j C" "j < N" for j C
  proof -
    have mj: "min j N = j" using that by simp
    have j: "0 \<le> j" "j \<le> min (j + block_size) N"
      using that by (auto simp: block_size_def)
    have pk: "upd_block P i ie 0 j K i' j' = 0"
      if "i \<le> i'" "i' < min (i + block_size) M" "j \<le> j'" for i' j'
      using that P by (simp add: upd_block_def)
    have "\<exists>C'. ?body j C = Some C' \<and>
           partial_product A B M K N
             (upd_block (upd_block P i ie 0 j K) i (min (i + block_size) M)
                j (min (j + block_size) N) K) C'"
      by (rule partial_product_kblocks
          [where P = "upd_block P i ie 0 j K", OF sh _ i j(1) \<open>j < N\<close> pk])
        (use that mj in auto)
    moreover have "0 \<le> j + block_size" using that by (simp add: block_size_def)
    ultimately show ?thesis
      using j by (simp add: ie_def[symmetric] upd_block_cols)
  qed
  have "\<exists>j C'. for_loop 0 N block_size ?body C = Some C' \<and> ?I j C' \<and> N \<le> j"
    by (rule for_loop_rule[where I = ?I])
      (use N pp step shapes_bounds[OF sh] INT_MIN_le_0 in
        \<open>auto simp: block_size_def upd_block_empty\<close>)
  then obtain j C' where r: "for_loop 0 N block_size ?body C = Some C'"
    and "?I j C'" "N \<le> j" by blast
  then have "min j N = N" by simp
  with \<open>?I j C'\<close> r show ?thesis unfolding ie_def by auto
qed

lemma partial_product_iblocks:
  assumes sh: "shapes A B M K N"
    and pp: "partial_product A B M K N (\<lambda>_ _. 0) C"
  shows "\<exists>C'. for_loop 0 M block_size (\<lambda>i C. for_loop 0 N block_size (\<lambda>j C. for_loop 0 K block_size (\<lambda>k C. do {
             i_next \<leftarrow> int_add i block_size;
             let i_end = (if i_next < M then i_next else M);
             j_next \<leftarrow> int_add j block_size;
             let j_end = (if j_next < N then j_next else N);
             k_next \<leftarrow> int_add k block_size;
             let k_end = (if k_next < K then k_next else K);
             for_loop i i_end 1 (\<lambda>ii C. for_loop j j_end 1 (\<lambda>jj C. do {
              sum \<leftarrow> load_at C ii N jj;
              sum \<leftarrow> for_loop k k_end 1 (\<lambda>kk sum. do {
                a \<leftarrow> load_at A ii K kk;
                b \<leftarrow> load_at B kk N jj;
                Some (sum + a * b) }) sum;
              store_at C ii N jj sum }) C) C }) C) C) C = Some C' \<and>
           partial_product A B M K N (\<lambda>_ _. K) C'"
  (is "\<exists>C'. for_loop 0 M block_size ?body C = Some C' \<and> _")
proof -
  have M: "0 \<le> M" using sh by (simp add: shapes_def)
  let ?P0 = "\<lambda>(_::int) (_::int). 0::int"
  let ?I = "\<lambda>i C. 0 \<le> i \<and> partial_product A B M K N (upd_block ?P0 0 (min i M) 0 N K) C"
  have step: "\<exists>C'. ?body i C = Some C' \<and> ?I (i + block_size) C'"
    if "?I i C" "i < M" for i C
  proof -
    have mi: "min i M = i" using that by simp
    have i: "0 \<le> i" "i \<le> min (i + block_size) M"
      using that by (auto simp: block_size_def)
    have pk: "upd_block ?P0 0 i 0 N K i' j' = 0" if "i \<le> i'" for i' j'
      using that by (simp add: upd_block_def)
    have "\<exists>C'. ?body i C = Some C' \<and>
           partial_product A B M K N
             (upd_block (upd_block ?P0 0 i 0 N K) i (min (i + block_size) M) 0 N K) C'"
      by (rule partial_product_jblocks
          [where P = "upd_block ?P0 0 i 0 N K", OF sh _ i(1) \<open>i < M\<close> pk])
        (use that mi in auto)
    moreover have "0 \<le> i + block_size" using that by (simp add: block_size_def)
    ultimately show ?thesis
      using i by (simp add: upd_block_rows)
  qed
  have "\<exists>i C'. for_loop 0 M block_size ?body C = Some C' \<and> ?I i C' \<and> M \<le> i"
    by (rule for_loop_rule[where I = ?I])
      (use M pp step shapes_bounds[OF sh] INT_MIN_le_0 in
        \<open>auto simp: block_size_def upd_block_empty\<close>)
  then obtain i C' where r: "for_loop 0 M block_size ?body C = Some C'"
    and I: "?I i C'" and "M \<le> i" by blast
  then have "min i M = M" by simp
  with I have "partial_product A B M K N (upd_block ?P0 0 M 0 N K) C'" by simp
  then have "partial_product A B M K N (\<lambda>_ _. K) C'"
    by (simp add: partial_product_def upd_block_def)
  with r show ?thesis by blast
qed

lemma done_cells_mono:
  assumes "done_cells A B M K N D C"
    and "\<And>i j. 0 \<le> i \<Longrightarrow> i < M \<Longrightarrow> 0 \<le> j \<Longrightarrow> j < N \<Longrightarrow> D' i j \<Longrightarrow> D i j"
  shows "done_cells A B M K N D' C"
  using assms unfolding done_cells_def by blast

lemma done_cells_all_gemm:
  assumes dc: "done_cells A B M K N (\<lambda>_ _. True) C" and M: "0 \<le> M" and N: "0 \<le> N"
  shows "C = gemm A B M K N"
proof (rule nth_equalityI)
  show "length C = length (gemm A B M K N)"
    using dc by (simp add: done_cells_def gemm_def) linarith
next
  fix idx assume "idx < length C"
  then have lt: "int idx < M * N" using dc by (simp add: done_cells_def)
  have Npos: "0 < N"
  proof (rule ccontr)
    assume "\<not> 0 < N"
    then have "N = 0" using N by simp
    then show False using lt by simp
  qed
  define i where "i = int idx div N"
  define j where "j = int idx mod N"
  have j: "0 \<le> j" "j < N" using Npos by (simp_all add: j_def)
  have i0: "0 \<le> i" using Npos by (simp add: i_def pos_imp_zdiv_nonneg_iff)
  have eq: "i * N + j = int idx" by (simp add: i_def j_def)
  have "i * N \<le> int idx" using eq j by linarith
  then have "i * N < M * N" using lt by linarith
  then have iM: "i < M" using Npos by (simp add: mult_less_cancel_right)
  have "C ! nat (i * N + j) = dot_prefix A B K N i j K"
    using dc i0 iM j by (simp add: done_cells_def)
  then have "C ! idx = dot_prefix A B K N i j K" by (simp add: eq)
  moreover have "idx < nat (M * N)" using lt by linarith
  ultimately show "C ! idx = gemm A B M K N ! idx"
    by (simp add: gemm_def i_def j_def)
qed

lemma shapes_count:
  assumes "shapes A B M K N"
  shows "int_mul M N = Some (M * N)"
proof -
  have "0 \<le> M * N" using assms by (simp add: shapes_def)
  then have "INT_MIN \<le> M * N" using INT_MIN_le_0 by linarith
  then show ?thesis
    using assms by (simp add: int_mul_def shapes_def)
qed

lemma memset0_all:
  assumes "int (length C) = M * N"
  shows "memset0 C (M * N) = Some (replicate (nat (M * N)) 0)"
  using assms by (simp add: memset0_def)

lemma partial_product_zero:
  "0 \<le> M \<Longrightarrow> 0 \<le> N \<Longrightarrow>
   partial_product A B M K N (\<lambda>_ _. 0) (replicate (nat (M * N)) 0)"
proof -
  assume MN: "0 \<le> M" "0 \<le> N"
  have "replicate (nat (M * N)) (0::'a) ! nat (i * N + j) = 0"
    if "0 \<le> i" "i < M" "0 \<le> j" "j < N" for i j
  proof -
    have "i * N + j < M * N" using that by (rule idx_less)
    moreover have "0 \<le> i * N + j" using that MN by simp
    ultimately have "nat (i * N + j) < nat (M * N)" by linarith
    then show ?thesis by simp
  qed
  then show ?thesis using MN by (simp add: partial_product_def dot_prefix_0)
qed

lemma matrix_multiply_optimized_gemm:
  assumes sh: "shapes A B M K N" and len: "int (length C) = M * N"
  shows "matrix_multiply_optimized A B C M K N simd_type = Some (gemm A B M K N)"
proof -
  have MN: "0 \<le> M" "0 \<le> N" using sh by (simp_all add: shapes_def)
  obtain C' where r: "matrix_multiply_optimized A B C M K N simd_type = Some C'"
    and pp: "partial_product A B M K N (\<lambda>_ _. K) C'"
    using partial_product_iblocks[OF sh partial_product_zero[OF MN]]
    by (auto simp: matrix_multiply_optimized_def memset0_all[OF len] shapes_count[OF sh])
  have "done_cells A B M K N (\<lambda>_ _. True) C'"
    using pp by (simp add: partial_product_def done_cells_def)
  then have "C' = gemm A B M K N" using MN by (rule done_cells_all_gemm)
  with r show ?thesis by simp
qed

lemma matrix_multiply_gemm:
  assumes sh: "shapes A B M K N" and len: "int (length C) = M * N"
  shows "matrix_multiply A B C M K N = Some (gemm A B M K N)"
proof -
  have MN: "0 \<le> M" "0 \<le> N" "0 \<le> K" using sh by (simp_all add: shapes_def)
  let ?cell = "\<lambda>i j C. do {
         sum \<leftarrow> for_loop 0 K 1 (\<lambda>k sum. do {
                  a \<leftarrow> load_at A i K k;
                  b \<leftarrow> load_at B k N j;
                  Some (sum + a * b) }) 0;
         store_at C i N j sum }"
  let ?row = "\<lambda>i C. for_loop 0 N 1 (?cell i) C"
  have cell: "?cell i j C = Some (C[nat (i * N + j) := dot_prefix A B K N i j K])"
    if "0 \<le> i" "i < M" "0 \<le> j" "j < N" "int (length C) = M * N" for i j C
  proof -
    have "for_loop 0 K 1 (\<lambda>k sum. do {
                  a \<leftarrow> load_at A i K k;
                  b \<leftarrow> load_at B k N j;
                  Some (sum + a * b) }) 0 = Some (dot_prefix A B K N i j K)"
      using kk_loop[OF sh that(1-4), of 0 K] MN by (simp add: dot_prefix_0)
    moreover have "i * N + j < int (length C)" "int (length C) \<le> INT_MAX"
      using idx_less[OF that(1-4)] that sh by (auto simp: shapes_def)
    ultimately show ?thesis using that MN by (simp add: store_at_in)
  qed
  have upd: "C[nat (i * N + j) := v] ! nat (i' * N + j') = C ! nat (i' * N + j')"
    if "0 \<le> i" "0 \<le> j" "j < N" "0 \<le> i'" "0 \<le> j'" "j' < N" "i' \<noteq> i \<or> j' \<noteq> j"
    for i j i' j' v and C :: "'a list"
  proof -
    have "i' * N + j' \<noteq> i * N + j" using idx_inj[of j' N j i' i] that by blast
    moreover have "0 \<le> i * N + j" "0 \<le> i' * N + j'" using that MN by simp_all
    ultimately have "nat (i' * N + j') \<noteq> nat (i * N + j)" by linarith
    then show ?thesis by simp
  qed
  have row: "\<exists>C'. ?row i C = Some C' \<and> done_cells A B M K N (\<lambda>i' _. i' < i + 1) C'"
    if i: "0 \<le> i" "i < M" and dc: "done_cells A B M K N (\<lambda>i' _. i' < i) C" for i C
  proof -
    let ?I = "\<lambda>j C. 0 \<le> j \<and> j \<le> N \<and>
                done_cells A B M K N (\<lambda>i' j'. i' < i \<or> (i' = i \<and> j' < j)) C"
    have step: "\<exists>C'. ?cell i j C = Some C' \<and> ?I (j + 1) C'" if "?I j C" "j < N" for j C
    proof -
      have len: "int (length C) = M * N" using that by (simp add: done_cells_def)
      have j: "0 \<le> j" using that by simp
      let ?C' = "C[nat (i * N + j) := dot_prefix A B K N i j K]"
      have "?C' ! nat (i' * N + j') = dot_prefix A B K N i' j' K"
        if r: "0 \<le> i'" "i' < M" "0 \<le> j'" "j' < N" "i' < i \<or> (i' = i \<and> j' < j + 1)"
        for i' j'
      proof (cases "i' = i \<and> j' = j")
        case True
        have "i * N + j < int (length C)" "0 \<le> i * N + j"
          using idx_less[OF i j \<open>j < N\<close>] i j MN len by auto
        then show ?thesis using True by simp
      next
        case False
        then have "?C' ! nat (i' * N + j') = C ! nat (i' * N + j')"
          using upd[of i j i' j'] i j \<open>j < N\<close> r by blast
        moreover have "i' < i \<or> (i' = i \<and> j' < j)" using False r by auto
        ultimately show ?thesis using \<open>?I j C\<close> r by (simp add: done_cells_def)
      qed
      then have "done_cells A B M K N (\<lambda>i' j'. i' < i \<or> (i' = i \<and> j' < j + 1)) ?C'"
        using len by (simp add: done_cells_def)
      then show ?thesis using cell[OF i j \<open>j < N\<close> len] that by simp
    qed
    have init: "?I 0 C"
      using dc MN by (auto simp: done_cells_def)
    have "\<exists>j C'. for_loop 0 N 1 (?cell i) C = Some C' \<and> ?I j C' \<and> N \<le> j"
      by (rule for_loop_rule[where I = ?I])
        (use init step shapes_bounds[OF sh] INT_MIN_le_0 in auto)
    then obtain j C' where r: "?row i C = Some C'" and I: "?I j C'" and "N \<le> j" by blast
    then have "j = N" by simp
    with I have "done_cells A B M K N (\<lambda>i' j'. i' < i \<or> (i' = i \<and> j' < N)) C'"
      by simp
    then have "done_cells A B M K N (\<lambda>i' _. i' < i + 1) C'"
      by (rule done_cells_mono) auto
    with r show ?thesis by blast
  qed
  let ?I = "\<lambda>i C. 0 \<le> i \<and> i \<le> M \<and> done_cells A B M K N (\<lambda>i' _. i' < i) C"
  have "\<exists>i C'. for_loop 0 M 1 ?row C = Some C' \<and> ?I i C' \<and> M \<le> i"
  proof (rule for_loop_rule[where I = ?I])
    show "?I 0 C" using len MN by (auto simp: done_cells_def)
  next
    fix i C assume "?I i C" "i < M"
    then show "\<exists>C'. ?row i C = Some C' \<and> ?I (i + 1) C'"
      using row[of i C] by auto
  next
    fix i :: int and C :: "'a list" assume "i < M"
    then show "i + 1 \<le> INT_MAX" using shapes_bounds[OF sh] by simp
  qed (simp_all add: INT_MIN_le_0)
  then obtain i C' where r: "for_loop 0 M 1 ?row C = Some C'" and I: "?I i C'" and "M \<le> i"
    by blast
  then have "i = M" by simp
  with I have "done_cells A B M K N (\<lambda>i' _. i' < M) C'" by simp
  then have "done_cells A B M K N (\<lambda>_ _. True) C'"
    by (rule done_cells_mono) auto
  then have "C' = gemm A B M K N" using MN(1,2) by (rule done_cells_all_gemm)
  with r show ?thesis by (simp add: matrix_multiply_def)
qed

text \<open>
  C3. For all dimensions \<open>M, N, K \<ge> 0\<close> (smaller than, equal to, or not a multiple of
  the block extent 32) such that each dimension plus one block and each of the three
  element counts is a value of \<open>int\<close>, and buffers that hold exactly the \<open>M\<times>K\<close>,
  \<open>K\<times>N\<close> and \<open>M\<times>N\<close> matrices, the cache-blocked \<open>matrix_multiply_optimized\<close> returns, and
  returns the same output buffer as the naive triple loop \<open>matrix_multiply\<close>: the
  product matrix, every entry summed in the same order, so the two agree exactly and
  not only within a tolerance. No access leaves the buffers (edge blocks are clipped),
  and the output has the length of the buffer passed in.
\<close>

theorem blocked_multiply_equals_naive:
  assumes "0 \<le> M" and "0 \<le> K" and "0 \<le> N"
    and "M + block_size \<le> INT_MAX" and "K + block_size \<le> INT_MAX"
    and "N + block_size \<le> INT_MAX"
    and "M * K \<le> INT_MAX" and "K * N \<le> INT_MAX" and "M * N \<le> INT_MAX"
    and "int (length A) = M * K" and "int (length B) = K * N" and "int (length C) = M * N"
  shows "matrix_multiply_optimized A B C M K N simd_type = matrix_multiply A B C M K N \<and>
         matrix_multiply A B C M K N = Some (gemm A B M K N) \<and>
         length (gemm A B M K N) = length C"
proof -
  have sh: "shapes A B M K N" using assms by (simp add: shapes_def)
  have "length (gemm A B M K N) = nat (M * N)" by (simp add: gemm_def)
  then have "length (gemm A B M K N) = length C" using assms(12) by linarith
  then show ?thesis
    using matrix_multiply_optimized_gemm[OF sh assms(12)] matrix_multiply_gemm[OF sh assms(12)]
    by simp
qed

theorem blocked_multiply_equals_naive_witness:
  "matrix_multiply_optimized [1, 2, 3, 4 :: int] [5, 6, 7, 8] [9, 9, 9, 9] 2 2 2 ''avx2''
     = Some [19, 22, 43, 50] \<and>
   matrix_multiply_optimized (replicate (33 * 50) (1 :: int)) (replicate (50 * 17) 1)
       (replicate (33 * 17) 0) 33 50 17 ''sse42''
     = matrix_multiply (replicate (33 * 50) 1) (replicate (50 * 17) 1)
         (replicate (33 * 17) 0) 33 50 17"
proof -
  have naive: "matrix_multiply [1, 2, 3, 4 :: int] [5, 6, 7, 8] [9, 9, 9, 9] 2 2 2
      = Some [19, 22, 43, 50]"
    by code_simp
  have small: "matrix_multiply_optimized [1, 2, 3, 4 :: int] [5, 6, 7, 8] [9, 9, 9, 9] 2 2 2 ''avx2''
      = matrix_multiply [1, 2, 3, 4] [5, 6, 7, 8] [9, 9, 9, 9] 2 2 2"
    using blocked_multiply_equals_naive
      [of 2 2 2 "[1, 2, 3, 4 :: int]" "[5, 6, 7, 8]" "[9, 9, 9, 9]" "''avx2''"]
    by (simp add: block_size_def INT_MAX_def)
  have edge: "matrix_multiply_optimized (replicate (33 * 50) (1 :: int)) (replicate (50 * 17) 1)
       (replicate (33 * 17) 0) 33 50 17 ''sse42''
     = matrix_multiply (replicate (33 * 50) 1) (replicate (50 * 17) 1)
         (replicate (33 * 17) 0) 33 50 17"
    using blocked_multiply_equals_naive
      [of 33 50 17 "replicate (33 * 50) (1 :: int)" "replicate (50 * 17) 1"
          "replicate (33 * 17) 0" "''sse42''"]
    by (simp add: block_size_def INT_MAX_def)
  show ?thesis using naive small edge by simp
qed

subsection \<open>Dispatch\<close>




text \<open>
  C9. The \<open>simd_type\<close> hint has no influence on the result: for all inputs and any two
  hints, \<open>matrix_multiply_optimized\<close> returns the same output under both, and so does
  \<open>dispatch_matrix_multiply\<close> when the hint is given.
\<close>

theorem simd_type_hint_is_ignored:
  "matrix_multiply_optimized A B C M K N h1 = matrix_multiply_optimized A B C M K N h2 \<and>
   dispatch_matrix_multiply m A B C M K N (Some h1) =
     dispatch_matrix_multiply m A B C M K N (Some h2)"
proof -
  have "matrix_multiply_optimized A B C M K N h1 = matrix_multiply_optimized A B C M K N h2"
    unfolding matrix_multiply_optimized_def by (rule refl)
  then show ?thesis
    by (simp add: dispatch_matrix_multiply_def dispatch_matrix_multiply_call_def)
qed

subsection \<open>Platform kernels: one branch per build\<close>

lemma simd_path_cases:
  obtains (avx2) "arch bld = ARCH_X86_64" "AVX2 bld" "simd_path bld = Path_AVX2"
  | (sse42) "arch bld = ARCH_X86_64" "\<not> AVX2 bld" "SSE4_2 bld" "simd_path bld = Path_SSE42"
  | (neon) "arch bld = ARCH_ARM \<or> arch bld = ARCH_ARM64" "ARM_NEON bld" "simd_path bld = Path_NEON"
  | (arm) "arch bld = ARCH_ARM \<or> arch bld = ARCH_ARM64" "\<not> ARM_NEON bld" "simd_path bld = Path_ARM_scalar"
  | (generic) "\<not> (arch bld = ARCH_X86_64 \<and> AVX2 bld)" "\<not> (arch bld = ARCH_X86_64 \<and> SSE4_2 bld)"
      "\<not> (arch bld = ARCH_ARM \<or> arch bld = ARCH_ARM64)" "simd_path bld = Path_generic"
  by (cases "arch bld"; cases "AVX2 bld"; cases "SSE4_2 bld"; cases "ARM_NEON bld")
     (auto simp: simd_path_def)

lemma asm_vector_dot_path:
  assumes "\<not> uses_accelerate bld"
  shows "asm_vector_dot bld A B n = asm_vector_dot (path_build (simd_path bld)) A B n"
proof -
  have acc: "(platform bld = PLATFORM_MACOS \<and> APPLE bld) = False"
    using assms by (simp add: uses_accelerate_def)
  show ?thesis
  proof (cases bld rule: simd_path_cases)
    case avx2
    then show ?thesis by (simp add: asm_vector_dot_def acc)
  next
    case sse42
    then show ?thesis by (simp add: asm_vector_dot_def acc)
  next
    case neon
    then show ?thesis by (auto simp add: asm_vector_dot_def acc)
  next
    case arm
    then show ?thesis by (auto simp add: asm_vector_dot_def acc)
  next
    case generic
    then show ?thesis by (auto simp add: asm_vector_dot_def acc)
  qed
qed

text \<open>
  C4. For \<open>A = [1,2,3,4]\<close>, \<open>B = [5,6,7,8]\<close> and size 4, \<open>asm_vector_dot\<close> returns
  70 on every branch whose code is in the repository: AVX2, SSE4.2, NEON and the two
  scalar loops. Every value of the computation is an integer below \<open>2^24\<close>, on which
  single-precision \<open>+\<close> and \<open>*\<close> are exact, so the elements are taken as reals. The
  branch that calls Accelerate's \<open>vDSP_dotpr\<close> returns what that library returns.
\<close>

theorem asm_vector_dot_example:
  assumes "\<not> uses_accelerate bld"
  shows "asm_vector_dot bld [1, 2, 3, 4 :: real] [5, 6, 7, 8] 4 = Some 70"
proof -
  have "asm_vector_dot (path_build p) [1, 2, 3, 4 :: real] [5, 6, 7, 8] 4 = Some 70" for p
  proof (cases p)
    case Path_AVX2
    have "asm_vector_dot (path_build Path_AVX2) [1, 2, 3, 4 :: real] [5, 6, 7, 8] 4 = Some 70"
      by code_simp
    then show ?thesis using Path_AVX2 by simp
  next
    case Path_SSE42
    have "asm_vector_dot (path_build Path_SSE42) [1, 2, 3, 4 :: real] [5, 6, 7, 8] 4 = Some 70"
      by code_simp
    then show ?thesis using Path_SSE42 by simp
  next
    case Path_NEON
    have "asm_vector_dot (path_build Path_NEON) [1, 2, 3, 4 :: real] [5, 6, 7, 8] 4 = Some 70"
      by code_simp
    then show ?thesis using Path_NEON by simp
  next
    case Path_ARM_scalar
    have "asm_vector_dot (path_build Path_ARM_scalar) [1, 2, 3, 4 :: real] [5, 6, 7, 8] 4
        = Some 70"
      by code_simp
    then show ?thesis using Path_ARM_scalar by simp
  next
    case Path_generic
    have "asm_vector_dot (path_build Path_generic) [1, 2, 3, 4 :: real] [5, 6, 7, 8] 4 = Some 70"
      by code_simp
    then show ?thesis using Path_generic by simp
  qed
  then show ?thesis by (simp add: asm_vector_dot_path[OF assms])
qed

theorem asm_vector_dot_example_witness:
  "\<not> uses_accelerate (path_build Path_SSE42 :: real build) \<and>
   asm_vector_dot (path_build Path_SSE42) [1, 2, 3, 4 :: real] [5, 6, 7, 8] 4 = Some 70"
proof -
  have h: "\<not> uses_accelerate (path_build Path_SSE42 :: real build)"
    by (simp add: uses_accelerate_def)
  show ?thesis using h asm_vector_dot_example[OF h] by simp
qed

subsection \<open>Platform kernels: vector chunks, then a scalar remainder\<close>

text \<open>
  On every branch that is in the repository, and for every size \<open>0 \<le> n \<le> INT_MAX\<close> that
  the buffers can hold (a buffer of exactly \<open>n\<close> elements included), the platform kernels
  return, and return the reference output: they access the indices below \<open>n\<close> only and
  leave the rest of the output buffer as it was, whatever \<open>n mod width\<close> is, and all
  branches agree exactly.
\<close>

lemma upto_snoc_chunk:
  fixes i w :: int
  assumes "0 \<le> i" "0 \<le> w"
  shows "[0..i + w - 1] = [0..i - 1] @ [i..i + w - 1]"
proof (cases "i = 0")
  case True
  then show ?thesis by simp
next
  case False
  then show ?thesis
    using assms upto_split2[of 0 "i - 1" "i + w - 1"] by simp
qed

lemma map_upto_nth:
  assumes "0 \<le> i" "i + int w \<le> int (length xs)"
  shows "map (\<lambda>k. xs ! nat k) [i..i + int w - 1] = take w (drop (nat i) xs)"
proof (rule nth_equalityI)
  show "length (map (\<lambda>k. xs ! nat k) [i..i + int w - 1]) = length (take w (drop (nat i) xs))"
    using assms by simp
next
  fix k assume "k < length (map (\<lambda>k. xs ! nat k) [i..i + int w - 1])"
  then have k: "k < w" by simp
  then have "[i..i + int w - 1] ! k = i + int k" by simp
  then show "map (\<lambda>k. xs ! nat k) [i..i + int w - 1] ! k = take w (drop (nat i) xs) ! k"
    using k assms by (simp add: nat_add_distrib)
qed

lemma loadu_in:
  assumes "0 \<le> i" "i + int w \<le> int (length xs)"
  shows "loadu w xs i = Some (map (\<lambda>k. xs ! nat k) [i..i + int w - 1])"
  using assms by (simp add: loadu_def map_upto_nth)

lemma storeu_prefix:
  assumes "0 \<le> i" "i + int (length v) \<le> int (length C)"
  shows "storeu (map g [0..i - 1] @ drop (nat i) C) i v =
         Some (map g [0..i - 1] @ v @ drop (nat (i + int (length v))) C)"
  using assms by (simp add: storeu_def nat_add_distrib add.commute)

lemma store_prefix:
  assumes "0 \<le> i" "i < int (length C)"
  shows "store (map g [0..i - 1] @ drop (nat i) C) i v =
         Some (map g [0..i - 1] @ v # drop (nat (i + 1)) C)"
proof -
  have "drop (nat i) C = C ! nat i # drop (nat (i + 1)) C"
    using assms by (simp add: Cons_nth_drop_Suc nat_add_distrib)
  then show ?thesis
    using assms by (simp add: store_def list_update_append)
qed

lemma vector_then_remainder:
  fixes g :: "int \<Rightarrow> 'a"
  assumes w: "0 < w" and n: "0 \<le> n" "n \<le> int (length C)" and nmax: "n \<le> INT_MAX"
    and vb: "\<And>i. 0 \<le> i \<Longrightarrow> i + int w \<le> n \<Longrightarrow>
               vbody i (map g [0..i - 1] @ drop (nat i) C) =
               storeu (map g [0..i - 1] @ drop (nat i) C) i (map g [i..i + int w - 1])"
    and sb: "\<And>i. 0 \<le> i \<Longrightarrow> i < n \<Longrightarrow>
               sbody i (map g [0..i - 1] @ drop (nat i) C) =
               store (map g [0..i - 1] @ drop (nat i) C) i (g i)"
  shows "loop_from_le 0 (n - int w) (int w) vbody C \<bind> (\<lambda>(i, C). for_loop i n 1 sbody C)
         = Some (map g [0..n - 1] @ drop (nat n) C)"
proof -
  let ?I = "\<lambda>i C'. 0 \<le> i \<and> i \<le> n \<and> C' = map g [0..i - 1] @ drop (nat i) C"
  have vstep: "\<exists>t'. vbody j t = Some t' \<and> ?I (j + int w) t'"
    if "?I j t" "j < n - int w + 1" for j t
  proof -
    have j: "0 \<le> j" "j + int w \<le> n" using that by auto
    have "vbody j t = storeu (map g [0..j - 1] @ drop (nat j) C) j (map g [j..j + int w - 1])"
      using that vb[OF j] by simp
    also have "\<dots> = Some (map g [0..j - 1] @ map g [j..j + int w - 1] @
                          drop (nat (j + int w)) C)"
      using storeu_prefix[of j "map g [j..j + int w - 1]" C g] j n by simp
    also have "\<dots> = Some (map g [0..j + int w - 1] @ drop (nat (j + int w)) C)"
      using upto_snoc_chunk[of j "int w"] j by simp
    finally show ?thesis using j by simp
  qed
  have "\<exists>j t. loop_from 0 (n - int w + 1) (int w) vbody C = Some (j, t) \<and> ?I j t \<and>
          n - int w + 1 \<le> j"
    by (rule loop_from_rule[where I = ?I]) (use w n nmax INT_MIN_le_0 vstep in auto)
  then obtain j t where l1: "loop_from_le 0 (n - int w) (int w) vbody C = Some (j, t)"
    and I1: "?I j t"
    by (auto simp: loop_from_le_def)
  have sstep: "\<exists>t'. sbody i t = Some t' \<and> ?I (i + 1) t'" if "?I i t" "i < n" for i t
  proof -
    have i: "0 \<le> i" using that by simp
    have "sbody i t = store (map g [0..i - 1] @ drop (nat i) C) i (g i)"
      using that sb[OF i \<open>i < n\<close>] by simp
    also have "\<dots> = Some (map g [0..i - 1] @ g i # drop (nat (i + 1)) C)"
      using store_prefix[of i C g "g i"] i that n by simp
    also have "\<dots> = Some (map g [0..i] @ drop (nat (i + 1)) C)"
      using i by (simp add: upto_rec2)
    finally show ?thesis using that by simp
  qed
  have "\<exists>i t'. for_loop j n 1 sbody t = Some t' \<and> ?I i t' \<and> n \<le> i"
    by (rule for_loop_rule[where I = ?I]) (use I1 nmax INT_MIN_le_0 sstep in auto)
  then obtain i t' where l2: "for_loop j n 1 sbody t = Some t'" and "?I i t'" "n \<le> i"
    by blast
  then have "i = n" "t' = map g [0..i - 1] @ drop (nat i) C" by auto
  then show ?thesis using l1 l2 by simp
qed

lemma map2_replicate:
  "length xs = w \<Longrightarrow> map2 f xs (replicate w c) = map (\<lambda>x. f x c) xs"
  by (induction xs arbitrary: w) auto

lemma binary_branch:
  assumes "0 < w" and "0 \<le> n" and "n \<le> int (length A)" and "n \<le> int (length B)"
    and "n \<le> int (length C)" and "n \<le> INT_MAX"
  shows "loop_from_le 0 (n - int w) (int w) (\<lambda>i C. do {
             a \<leftarrow> loadu w A i;
             b \<leftarrow> loadu w B i;
             storeu C i (map2 f a b) }) C \<bind>
         (\<lambda>(i, C). for_loop i n 1 (\<lambda>i C. do {
             a \<leftarrow> load A i; b \<leftarrow> load B i; store C i (f a b) }) C)
         = Some (elementwise f A B C n)"
  unfolding elementwise_def
proof (rule vector_then_remainder[OF assms(1,2,5,6)])
  fix i assume i: "0 \<le> i" "i + int w \<le> n"
  have "map2 f (map (\<lambda>k. A ! nat k) [i..i + int w - 1]) (map (\<lambda>k. B ! nat k) [i..i + int w - 1])
        = map (\<lambda>k. f (A ! nat k) (B ! nat k)) [i..i + int w - 1]"
    by (simp add: map2_map_map)
  then show "loadu w A i \<bind> (\<lambda>a. loadu w B i \<bind> (\<lambda>b.
               storeu (map (\<lambda>k. f (A ! nat k) (B ! nat k)) [0..i - 1] @ drop (nat i) C) i
                 (map2 f a b)))
             = storeu (map (\<lambda>k. f (A ! nat k) (B ! nat k)) [0..i - 1] @ drop (nat i) C) i
                 (map (\<lambda>k. f (A ! nat k) (B ! nat k)) [i..i + int w - 1])"
    using i assms by (simp add: loadu_in)
next
  fix i assume i: "0 \<le> i" "i < n"
  show "load A i \<bind> (\<lambda>a. load B i \<bind> (\<lambda>b.
          store (map (\<lambda>k. f (A ! nat k) (B ! nat k)) [0..i - 1] @ drop (nat i) C) i (f a b)))
        = store (map (\<lambda>k. f (A ! nat k) (B ! nat k)) [0..i - 1] @ drop (nat i) C) i
            (f (A ! nat i) (B ! nat i))"
    using i assms by (simp add: load_in)
qed

lemma scalar_binary_loop:
  assumes "0 \<le> n" and "n \<le> int (length A)" and "n \<le> int (length B)"
    and "n \<le> int (length C)" and "n \<le> INT_MAX"
  shows "for_loop 0 n 1 (\<lambda>i C. do {
             a \<leftarrow> load A i; b \<leftarrow> load B i; store C i (f a b) }) C
         = Some (elementwise f A B C n)"
proof -
  let ?g = "\<lambda>k. f (A ! nat k) (B ! nat k)"
  let ?body = "\<lambda>i C. do { a \<leftarrow> load A i; b \<leftarrow> load B i; store C i (f a b) }"
  let ?I = "\<lambda>i C'. 0 \<le> i \<and> i \<le> n \<and> C' = map ?g [0..i - 1] @ drop (nat i) C"
  have step: "\<exists>t'. ?body i t = Some t' \<and> ?I (i + 1) t'" if "?I i t" "i < n" for i t
  proof -
    have i: "0 \<le> i" using that by simp
    have "?body i t = store (map ?g [0..i - 1] @ drop (nat i) C) i (?g i)"
      using that i assms by (simp add: load_in)
    also have "\<dots> = Some (map ?g [0..i - 1] @ ?g i # drop (nat (i + 1)) C)"
      using store_prefix[of i C ?g "?g i"] i that assms by simp
    also have "\<dots> = Some (map ?g [0..i] @ drop (nat (i + 1)) C)"
      using i by (simp add: upto_rec2)
    finally show ?thesis using that by simp
  qed
  have "\<exists>i t'. for_loop 0 n 1 ?body C = Some t' \<and> ?I i t' \<and> n \<le> i"
    by (rule for_loop_rule[where I = ?I]) (use assms INT_MIN_le_0 step in auto)
  then obtain i t' where l: "for_loop 0 n 1 ?body C = Some t'" and "?I i t'" "n \<le> i"
    by blast
  then have "i = n" "t' = map ?g [0..i - 1] @ drop (nat i) C" by auto
  then show ?thesis using l by (simp add: elementwise_def)
qed

lemma scale_branch:
  assumes "0 < w" and "0 \<le> n" and "n \<le> int (length A)" and "n \<le> int (length B)"
    and "n \<le> INT_MAX"
  shows "loop_from_le 0 (n - int w) (int w) (\<lambda>i B. do {
             a \<leftarrow> loadu w A i;
             storeu B i (map2 (*) a (replicate w scalar)) }) B \<bind>
         (\<lambda>(i, B). for_loop i n 1 (\<lambda>i B. do { a \<leftarrow> load A i; store B i (a * scalar) }) B)
         = Some (scaled A B scalar n)"
  unfolding scaled_def
proof (rule vector_then_remainder[OF assms(1,2,4,5)])
  fix i assume i: "0 \<le> i" "i + int w \<le> n"
  have "map2 (*) (map (\<lambda>k. A ! nat k) [i..i + int w - 1]) (replicate w scalar)
        = map (\<lambda>k. A ! nat k * scalar) [i..i + int w - 1]"
    by (subst map2_replicate) (simp_all add: comp_def)
  then show "loadu w A i \<bind> (\<lambda>a.
               storeu (map (\<lambda>k. A ! nat k * scalar) [0..i - 1] @ drop (nat i) B) i
                 (map2 (*) a (replicate w scalar)))
             = storeu (map (\<lambda>k. A ! nat k * scalar) [0..i - 1] @ drop (nat i) B) i
                 (map (\<lambda>k. A ! nat k * scalar) [i..i + int w - 1])"
    using i assms by (simp add: loadu_in)
next
  fix i assume i: "0 \<le> i" "i < n"
  show "load A i \<bind> (\<lambda>a.
          store (map (\<lambda>k. A ! nat k * scalar) [0..i - 1] @ drop (nat i) B) i (a * scalar))
        = store (map (\<lambda>k. A ! nat k * scalar) [0..i - 1] @ drop (nat i) B) i
            (A ! nat i * scalar)"
    using i assms by (simp add: load_in)
qed

lemma scalar_scale_loop:
  assumes "0 \<le> n" and "n \<le> int (length A)" and "n \<le> int (length B)"
    and "n \<le> INT_MAX"
  shows "for_loop 0 n 1 (\<lambda>i B. do { a \<leftarrow> load A i; store B i (a * scalar) }) B
         = Some (scaled A B scalar n)"
proof -
  let ?g = "\<lambda>k. A ! nat k * scalar"
  let ?body = "\<lambda>i B. do { a \<leftarrow> load A i; store B i (a * scalar) }"
  let ?I = "\<lambda>i B'. 0 \<le> i \<and> i \<le> n \<and> B' = map ?g [0..i - 1] @ drop (nat i) B"
  have step: "\<exists>t'. ?body i t = Some t' \<and> ?I (i + 1) t'" if "?I i t" "i < n" for i t
  proof -
    have i: "0 \<le> i" using that by simp
    have "?body i t = store (map ?g [0..i - 1] @ drop (nat i) B) i (?g i)"
      using that i assms by (simp add: load_in)
    also have "\<dots> = Some (map ?g [0..i - 1] @ ?g i # drop (nat (i + 1)) B)"
      using store_prefix[of i B ?g "?g i"] i that assms by simp
    also have "\<dots> = Some (map ?g [0..i] @ drop (nat (i + 1)) B)"
      using i by (simp add: upto_rec2)
    finally show ?thesis using that by simp
  qed
  have "\<exists>i t'. for_loop 0 n 1 ?body B = Some t' \<and> ?I i t' \<and> n \<le> i"
    by (rule for_loop_rule[where I = ?I]) (use assms INT_MIN_le_0 step in auto)
  then obtain i t' where l: "for_loop 0 n 1 ?body B = Some t'" and "?I i t'" "n \<le> i"
    by blast
  then have "i = n" "t' = map ?g [0..i - 1] @ drop (nat i) B" by auto
  then show ?thesis using l by (simp add: scaled_def)
qed

lemma asm_matrix_add_result:
  assumes "\<not> uses_accelerate bld" and "0 \<le> n" and "n \<le> int (length A)"
    and "n \<le> int (length B)" and "n \<le> int (length C)" and "n \<le> INT_MAX"
  shows "asm_matrix_add bld A B C n = Some (elementwise (+) A B C n)"
proof -
  have acc: "(platform bld = PLATFORM_MACOS \<and> APPLE bld) = False"
    using assms(1) by (simp add: uses_accelerate_def)
  have sub: "int_sub n 8 = Some (n - 8)" "int_sub n 4 = Some (n - 4)"
    using assms INT_MIN_le_0 by (simp_all add: int_sub_def INT_MIN_def)
  note b8 = binary_branch[where w = 8, simplified]
  note b4 = binary_branch[where w = 4, simplified]
  show ?thesis
  proof (cases bld rule: simd_path_cases)
    case avx2
    then show ?thesis using assms by (simp add: asm_matrix_add_def acc b8 sub)
  next
    case sse42
    then show ?thesis using assms by (simp add: asm_matrix_add_def acc b4 sub)
  next
    case neon
    then show ?thesis using assms by (auto simp add: asm_matrix_add_def acc b4 sub)
  next
    case arm
    then show ?thesis using assms by (auto simp add: asm_matrix_add_def acc scalar_binary_loop)
  next
    case generic
    then show ?thesis using assms by (auto simp add: asm_matrix_add_def acc scalar_binary_loop)
  qed
qed

lemma asm_vector_scale_result:
  assumes "\<not> uses_accelerate bld" and "0 \<le> n" and "n \<le> int (length A)"
    and "n \<le> int (length B)" and "n \<le> INT_MAX"
  shows "asm_vector_scale bld A B scalar n = Some (scaled A B scalar n)"
proof -
  have acc: "(platform bld = PLATFORM_MACOS \<and> APPLE bld) = False"
    using assms(1) by (simp add: uses_accelerate_def)
  have sub: "int_sub n 8 = Some (n - 8)" "int_sub n 4 = Some (n - 4)"
    using assms INT_MIN_le_0 by (simp_all add: int_sub_def INT_MIN_def)
  note b8 = scale_branch[where w = 8, simplified]
  note b4 = scale_branch[where w = 4, simplified]
  show ?thesis
  proof (cases bld rule: simd_path_cases)
    case avx2
    then show ?thesis using assms by (simp add: asm_vector_scale_def acc Let_def b8 sub)
  next
    case sse42
    then show ?thesis using assms by (simp add: asm_vector_scale_def acc Let_def b4 sub)
  next
    case neon
    then show ?thesis using assms by (auto simp add: asm_vector_scale_def acc Let_def b4 sub)
  next
    case arm
    then show ?thesis using assms by (auto simp add: asm_vector_scale_def acc Let_def scalar_scale_loop)
  next
    case generic
    then show ?thesis using assms by (auto simp add: asm_vector_scale_def acc Let_def scalar_scale_loop)
  qed
qed

lemma asm_vector_bitwise_or_result:
  assumes "0 \<le> n" and "n \<le> int (length A)" and "n \<le> int (length B)"
    and "n \<le> int (length C)" and "n \<le> INT_MAX"
  shows "asm_vector_bitwise_or bld A B C n = Some (elementwise (OR) A B C n)"
proof -
  have sub: "int_sub n 8 = Some (n - 8)" "int_sub n 4 = Some (n - 4)"
    using assms INT_MIN_le_0 by (simp_all add: int_sub_def INT_MIN_def)
  note b8 = binary_branch[where w = 8, simplified]
  note b4 = binary_branch[where w = 4, simplified]
  show ?thesis
  proof (cases bld rule: simd_path_cases)
    case avx2
    then show ?thesis using assms by (simp add: asm_vector_bitwise_or_def b8 sub)
  next
    case sse42
    then show ?thesis using assms by (simp add: asm_vector_bitwise_or_def b4 sub)
  next
    case neon
    then show ?thesis using assms by (auto simp add: asm_vector_bitwise_or_def b4 sub)
  next
    case arm
    then show ?thesis using assms by (auto simp add: asm_vector_bitwise_or_def scalar_binary_loop)
  next
    case generic
    then show ?thesis using assms by (auto simp add: asm_vector_bitwise_or_def scalar_binary_loop)
  qed
qed

lemma asm_vector_bitwise_and_result:
  assumes "0 \<le> n" and "n \<le> int (length A)" and "n \<le> int (length B)"
    and "n \<le> int (length C)" and "n \<le> INT_MAX"
  shows "asm_vector_bitwise_and bld A B C n = Some (elementwise (AND) A B C n)"
proof -
  have sub: "int_sub n 8 = Some (n - 8)" "int_sub n 4 = Some (n - 4)"
    using assms INT_MIN_le_0 by (simp_all add: int_sub_def INT_MIN_def)
  note b8 = binary_branch[where w = 8, simplified]
  note b4 = binary_branch[where w = 4, simplified]
  show ?thesis
  proof (cases bld rule: simd_path_cases)
    case avx2
    then show ?thesis using assms by (simp add: asm_vector_bitwise_and_def b8 sub)
  next
    case sse42
    then show ?thesis using assms by (simp add: asm_vector_bitwise_and_def b4 sub)
  next
    case neon
    then show ?thesis using assms by (auto simp add: asm_vector_bitwise_and_def b4 sub)
  next
    case arm
    then show ?thesis using assms by (auto simp add: asm_vector_bitwise_and_def scalar_binary_loop)
  next
    case generic
    then show ?thesis using assms by (auto simp add: asm_vector_bitwise_and_def scalar_binary_loop)
  qed
qed

lemma platform_kernels_agree:
  assumes "\<not> uses_accelerate bld" and "\<not> uses_accelerate bld'" and "0 \<le> n"
    and "n \<le> int (length A)" and "n \<le> int (length B)" and "n \<le> int (length C)"
    and "n \<le> INT_MAX"
  shows "asm_matrix_add bld A B C n = asm_matrix_add bld' A B C n"
    and "asm_vector_scale bld A C scalar n = asm_vector_scale bld' A C scalar n"
  using assms by (simp_all add: asm_matrix_add_result asm_vector_scale_result)

lemma bitwise_kernels_agree:
  assumes "0 \<le> n" and "n \<le> int (length A)" and "n \<le> int (length B)"
    and "n \<le> int (length C)" and "n \<le> INT_MAX"
  shows "asm_vector_bitwise_or bld A B C n = asm_vector_bitwise_or bld' A B C n"
    and "asm_vector_bitwise_and bld A B C n = asm_vector_bitwise_and bld' A B C n"
  using assms by (simp_all add: asm_vector_bitwise_or_result asm_vector_bitwise_and_result)

text \<open>
  The scaling example on the platform kernel: \<open>[1,2,3]\<close> times 2 with size 3 is
  \<open>[2,4,6]\<close> on every branch in the repository, the branches of width 8 and 4
  running their remainder loop only.
\<close>

lemma asm_vector_scale_example:
  assumes "\<not> uses_accelerate bld"
  shows "asm_vector_scale bld [1, 2, 3 :: real] [x, y, z] 2 3 = Some [2, 4, 6]"
proof -
  have "[0..(2::int)] = [0, 1, 2]" by code_simp
  then have "scaled [1, 2, 3 :: real] [x, y, z] 2 3 = [2, 4, 6]"
    by (simp add: scaled_def)
  then show ?thesis
    using asm_vector_scale_result[OF assms, of 3 "[1, 2, 3]" "[x, y, z]" 2]
    by (simp add: INT_MAX_def)
qed

subsection \<open>Tier kernels at a size that is not a multiple of the width\<close>

text \<open>
  The tier kernels have no remainder pass. When \<open>n\<close> is a multiple of the width they
  compute the reference output; when it is not, the last chunk reaches past index
  \<open>n - 1\<close>, which on buffers of \<open>n\<close> elements is an access out of bounds. The scalar
  baselines are right for every \<open>0 \<le> n \<le> INT_MAX\<close>.
\<close>

lemma loop_from_overrun:
  fixes w n :: int
  assumes w: "0 < w" and nd: "\<not> w dvd n"
    and body: "\<And>j s s'. P s \<Longrightarrow> body j s = Some s' \<Longrightarrow> P s' \<and> j + w \<le> n"
  shows "P s \<Longrightarrow> w dvd i \<Longrightarrow> i < n \<Longrightarrow> loop_from i n w body s = None"
proof (induction "nat (n - i)" arbitrary: i s rule: less_induct)
  case less
  show ?case
  proof (cases "body i s")
    case None
    then show ?thesis using less.prems w by (subst loop_from.simps) simp
  next
    case (Some s')
    then have s': "P s'" "i + w \<le> n" using body less.prems(1) by blast+
    have "i + w \<noteq> n" using less.prems(2) nd by auto
    then have lt: "i + w < n" using s'(2) by simp
    have "loop_from (i + w) n w body s' = None"
      by (rule less.hyps) (use lt w s' less.prems in auto)
    then show ?thesis
      using less.prems w Some by (subst loop_from.simps) (simp add: int_add_def)
  qed
qed

lemma loadu_Some_bound: "loadu w xs j = Some v \<Longrightarrow> j + int w \<le> int (length xs)"
  by (simp add: loadu_def split: if_splits)

lemma storeu_length: "storeu xs j v = Some ys \<Longrightarrow> length ys = length xs"
  by (auto simp: storeu_def split: if_splits)

lemma simd_binary_overrun:
  assumes "0 < w" and "0 < n" and "\<not> int w dvd n" and "int (length a) = n"
  shows "simd_binary w f a b c n = None"
proof -
  have "loop_from 0 n (int w) (\<lambda>i c. do {
       vecA \<leftarrow> loadu w a i;
       vecB \<leftarrow> loadu w b i;
       storeu c i (map2 f vecA vecB) }) c = None"
  proof (rule loop_from_overrun[where P = "\<lambda>_. True"])
    fix j s s'
    assume "(do { vecA \<leftarrow> loadu w a j; vecB \<leftarrow> loadu w b j; storeu s j (map2 f vecA vecB) })
            = Some s'"
    then obtain v where "loadu w a j = Some v" by (auto split: bind_splits)
    then show "True \<and> j + int w \<le> n" using loadu_Some_bound assms(4) by fastforce
  qed (use assms in auto)
  then show ?thesis by (simp add: simd_binary_def for_loop_def)
qed

lemma simd_ternary_overrun:
  assumes "0 < w" and "0 < n" and "\<not> int w dvd n" and "int (length a) = n"
  shows "simd_ternary w f a b c result n = None"
proof -
  have "loop_from 0 n (int w) (\<lambda>i result. do {
       vecA \<leftarrow> loadu w a i;
       vecB \<leftarrow> loadu w b i;
       vecC \<leftarrow> loadu w c i;
       storeu result i (map (\<lambda>(x, y, z). f x y z) (zip vecA (zip vecB vecC))) }) result = None"
  proof (rule loop_from_overrun[where P = "\<lambda>_. True"])
    fix j s s'
    assume "(do { vecA \<leftarrow> loadu w a j; vecB \<leftarrow> loadu w b j; vecC \<leftarrow> loadu w c j;
                 storeu s j (map (\<lambda>(x, y, z). f x y z) (zip vecA (zip vecB vecC))) }) = Some s'"
    then obtain v where "loadu w a j = Some v" by (auto split: bind_splits)
    then show "True \<and> j + int w \<le> n" using loadu_Some_bound assms(4) by fastforce
  qed (use assms in auto)
  then show ?thesis by (simp add: simd_ternary_def for_loop_def)
qed

lemma simd_scale_overrun:
  assumes "0 < w" and "0 < n" and "\<not> int w dvd n" and "int (length vec) = n"
  shows "simd_scale w vec scalar n = None"
proof -
  have "loop_from 0 n (int w) (\<lambda>i vec. do {
           v \<leftarrow> loadu w vec i;
           storeu vec i (map2 (*) v (replicate w scalar)) }) vec = None"
  proof (rule loop_from_overrun[where P = "\<lambda>s. int (length s) = n"])
    fix j s s'
    assume len: "int (length s) = n"
      and r: "(do { v \<leftarrow> loadu w s j; storeu s j (map2 (*) v (replicate w scalar)) }) = Some s'"
    then obtain v where v: "loadu w s j = Some v"
      and st: "storeu s j (map2 (*) v (replicate w scalar)) = Some s'"
      by (auto split: bind_splits)
    show "int (length s') = n \<and> j + int w \<le> n"
      using loadu_Some_bound[OF v] storeu_length[OF st] len by simp
  qed (use assms in auto)
  then show ?thesis by (simp add: simd_scale_def for_loop_def Let_def)
qed

lemma chunk_fits:
  fixes i n w :: int
  assumes "0 < w" "w dvd i" "w dvd n" "i < n"
  shows "i + w \<le> n"
proof -
  have "w dvd n - i" using assms by simp
  moreover have "0 < n - i" using assms by simp
  ultimately have "w \<le> n - i" by (rule zdvd_imp_le)
  then show ?thesis by simp
qed

lemma simd_binary_exact:
  assumes "0 < w" and "0 \<le> n" and "int w dvd n" and "n \<le> int (length a)"
    and "n \<le> int (length b)" and "n \<le> int (length c)" and "n \<le> INT_MAX"
  shows "simd_binary w f a b c n = Some (elementwise f a b c n)"
proof -
  let ?g = "\<lambda>k. f (a ! nat k) (b ! nat k)"
  let ?body = "\<lambda>i c. do {
       vecA \<leftarrow> loadu w a i;
       vecB \<leftarrow> loadu w b i;
       storeu c i (map2 f vecA vecB) }"
  let ?I = "\<lambda>i c'. 0 \<le> i \<and> i \<le> n \<and> int w dvd i \<and> c' = map ?g [0..i - 1] @ drop (nat i) c"
  have step: "\<exists>t'. ?body i t = Some t' \<and> ?I (i + int w) t'" if "?I i t" "i < n" for i t
  proof -
    have i: "0 \<le> i" "i + int w \<le> n"
      using that assms chunk_fits[of "int w" i n] by auto
    have "?body i t = storeu (map ?g [0..i - 1] @ drop (nat i) c) i
                        (map ?g [i..i + int w - 1])"
      using that i assms by (simp add: loadu_in map2_map_map)
    also have "\<dots> = Some (map ?g [0..i - 1] @ map ?g [i..i + int w - 1] @
                          drop (nat (i + int w)) c)"
      using storeu_prefix[of i "map ?g [i..i + int w - 1]" c ?g] i assms by simp
    also have "\<dots> = Some (map ?g [0..i + int w - 1] @ drop (nat (i + int w)) c)"
      using upto_snoc_chunk[of i "int w"] i by simp
    finally show ?thesis using that i by simp
  qed
  have fits: "i + int w \<le> INT_MAX" if "?I i t" "i < n" for i and t :: "'a list"
    using that assms chunk_fits[of "int w" i n] by auto
  have "\<exists>i t'. for_loop 0 n (int w) ?body c = Some t' \<and> ?I i t' \<and> n \<le> i"
    by (rule for_loop_rule[where I = ?I]) (use assms INT_MIN_le_0 step fits in auto)
  then obtain i t' where l: "for_loop 0 n (int w) ?body c = Some t'" and "?I i t'" "n \<le> i"
    by blast
  then have "i = n" "t' = map ?g [0..i - 1] @ drop (nat i) c" by auto
  then show ?thesis using l by (simp add: simd_binary_def elementwise_def)
qed

lemma matrix_add_baseline_result:
  assumes "0 \<le> n" and "n \<le> int (length a)" and "n \<le> int (length b)"
    and "n \<le> int (length c)" and "n \<le> INT_MAX"
  shows "matrix_add_baseline a b c n = Some (elementwise (+) a b c n)"
  unfolding matrix_add_baseline_def using assms by (rule scalar_binary_loop)

lemma matrix_mult_baseline_result:
  assumes "0 \<le> n" and "n \<le> int (length a)" and "n \<le> int (length b)"
    and "n \<le> int (length c)" and "n \<le> INT_MAX"
  shows "matrix_mult_baseline a b c n = Some (elementwise (*) a b c n)"
  unfolding matrix_mult_baseline_def using assms by (rule scalar_binary_loop)

lemma vector_scale_baseline_result:
  assumes "0 \<le> n" and "n \<le> int (length vec)" and "n \<le> INT_MAX"
  shows "vector_scale_baseline vec scalar n = Some (scaled vec vec scalar n)"
proof -
  let ?g = "\<lambda>k. vec ! nat k * scalar"
  let ?body = "\<lambda>i vec. do { x \<leftarrow> load vec i; store vec i (x * scalar) }"
  let ?I = "\<lambda>i v'. 0 \<le> i \<and> i \<le> n \<and> v' = map ?g [0..i - 1] @ drop (nat i) vec"
  have step: "\<exists>t'. ?body i t = Some t' \<and> ?I (i + 1) t'" if "?I i t" "i < n" for i t
  proof -
    have i: "0 \<le> i" "i < int (length vec)" using that assms by auto
    have t: "t = map ?g [0..i - 1] @ drop (nat i) vec" using that by simp
    have "t ! nat i = vec ! nat i"
      using i by (simp add: t nth_append)
    moreover have "i < int (length t)" using i by (simp add: t)
    ultimately have "?body i t = store (map ?g [0..i - 1] @ drop (nat i) vec) i (?g i)"
      using i by (simp add: load_in t)
    also have "\<dots> = Some (map ?g [0..i - 1] @ ?g i # drop (nat (i + 1)) vec)"
      using store_prefix[of i vec ?g "?g i"] i by simp
    also have "\<dots> = Some (map ?g [0..i] @ drop (nat (i + 1)) vec)"
      using i by (simp add: upto_rec2)
    finally show ?thesis using that by simp
  qed
  have "\<exists>i t'. for_loop 0 n 1 ?body vec = Some t' \<and> ?I i t' \<and> n \<le> i"
    by (rule for_loop_rule[where I = ?I]) (use assms INT_MIN_le_0 step in auto)
  then obtain i t' where l: "for_loop 0 n 1 ?body vec = Some t'" and "?I i t'" "n \<le> i"
    by blast
  then have "i = n" "t' = map ?g [0..i - 1] @ drop (nat i) vec" by auto
  then show ?thesis using l by (simp add: vector_scale_baseline_def scaled_def)
qed

lemma tier_kernels_overrun:
  assumes "0 < n" and "int (length a) = n"
  shows "\<not> 16 dvd n \<Longrightarrow> matrix_mult_avx512 a b c n = None \<and> matrix_add_avx512 a b c' n = None \<and>
           vector_scale_avx512 a s n = None \<and> fma_avx512 fmadd a b c' r n = None"
    and "\<not> 8 dvd n \<Longrightarrow> matrix_mult_avx2 a b c n = None \<and> matrix_add_avx2 a b c' n = None \<and>
           vector_scale_avx2 a s n = None \<and> fma_avx2 m fmadd a b c' r n = None \<and>
           matrix_mult_avx a b c n = None \<and> matrix_add_avx a b c' n = None \<and>
           vector_scale_avx a s n = None"
    and "\<not> 4 dvd n \<Longrightarrow> matrix_mult_sse42 a b c n = None \<and> matrix_add_sse42 a b c' n = None \<and>
           vector_scale_sse42 a s n = None \<and>
           matrix_mult_neon a b c n = None \<and> matrix_add_neon a b c' n = None \<and>
           vector_scale_neon a s n = None \<and> fma_neon a b c' r n = None"
  using assms
  by (simp_all add: matrix_mult_avx512_def matrix_add_avx512_def vector_scale_avx512_def
      fma_avx512_def matrix_mult_avx2_def matrix_add_avx2_def vector_scale_avx2_def fma_avx2_def
      matrix_mult_avx_def matrix_add_avx_def vector_scale_avx_def matrix_mult_sse42_def
      matrix_add_sse42_def vector_scale_sse42_def matrix_mult_neon_def matrix_add_neon_def
      vector_scale_neon_def fma_neon_def simd_binary_overrun simd_scale_overrun
      simd_ternary_overrun)

text \<open>
  C1 (the code departs from the claim). \<open>matrix_mult_avx512\<close> has no remainder pass:
  its loop runs while \<open>i < n\<close> and always moves 16 lanes. On buffers of 3 elements
  with \<open>n = 3\<close>, and on buffers of 17 elements with \<open>n = 17\<close>, it accesses elements
  past index \<open>n - 1\<close>; on buffers of 16 elements with \<open>n = 3\<close> it writes all 16,
  where the scalar baseline writes the first 3.
\<close>

theorem matrix_mult_avx512_overruns:
  "matrix_mult_avx512 [1, 2, 3 :: real] [4, 5, 6] [0, 0, 0] 3 = None \<and>
   matrix_mult_avx512 (replicate 17 (2 :: real)) (replicate 17 3) (replicate 17 0) 17 = None \<and>
   matrix_mult_avx512 (replicate 16 (2 :: real)) (replicate 16 3) (replicate 16 0) 3
     = Some (replicate 16 6) \<and>
   matrix_mult_baseline (replicate 16 (2 :: real)) (replicate 16 3) (replicate 16 0) 3
     = Some (replicate 3 6 @ replicate 13 0)"
  by code_simp

text \<open>
  C2 (the code departs from the claim). At \<open>n = 3\<close> the AVX-512 add kernel and the
  scalar baseline do not produce the same output: on buffers of 3 elements the baseline
  returns the sums and the tier kernel reads and writes out of bounds; on buffers of 16
  elements the two leave different contents in \<open>c\<close>.
\<close>

theorem matrix_add_avx512_differs_from_baseline:
  "matrix_add_baseline [1, 2, 3 :: real] [4, 5, 6] [0, 0, 0] 3 = Some [5, 7, 9] \<and>
   matrix_add_avx512 [1, 2, 3 :: real] [4, 5, 6] [0, 0, 0] 3 = None \<and>
   matrix_add_baseline (replicate 16 (2 :: real)) (replicate 16 3) (replicate 16 0) 3
     = Some (replicate 3 5 @ replicate 13 0) \<and>
   matrix_add_avx512 (replicate 16 (2 :: real)) (replicate 16 3) (replicate 16 0) 3
     = Some (replicate 16 5)"
  by code_simp

text \<open>
  C5 (the code departs from the claim). \<open>vector_scale_sse42\<close> on \<open>[1,2,3]\<close> with
  scalar 2 and \<open>n = 3\<close> moves 4 lanes at index 0: out of bounds on a buffer of 3
  elements, and on a buffer of 4 elements the element at index 3 is scaled as well. The
  scalar baseline touches the indices 0 to 2 only.
\<close>

theorem vector_scale_sse42_touches_index_3:
  "vector_scale_sse42 [1, 2, 3 :: real] 2 3 = None \<and>
   vector_scale_sse42 [1, 2, 3, 10 :: real] 2 3 = Some [2, 4, 6, 20] \<and>
   vector_scale_baseline [1, 2, 3 :: real] 2 3 = Some [2, 4, 6] \<and>
   vector_scale_baseline [1, 2, 3, 10 :: real] 2 3 = Some [2, 4, 6, 10]"
  by code_simp

subsection \<open>Memory probe\<close>

lemma check_memory_usage_return:
  "fst (check_memory_usage env st nm thr result) =
     (if 0 < thr \<and> thr < current_mem env then 1 else 0)"
  by (simp add: check_memory_usage_def mem_probe_def Let_def)

lemma check_memory_usage_result:
  "\<exists>r. fst (snd (check_memory_usage env st nm thr (Some r0))) = Some r \<and>
       threshold_exceeded r = (if 0 < thr \<and> thr < current_mem env then 1 else 0)"
  by (simp add: check_memory_usage_def mem_probe_def Let_def zero_result_def)

text \<open>
  C10. \<open>check_memory_usage\<close> returns 1 if and only if the threshold is positive and the
  measured current memory is above it, and 0 otherwise, whether or not a result is
  asked for; with a threshold of 0 it returns 0 and logs nothing; and the
  \<open>threshold_exceeded\<close> field of the result it fills equals the value returned.
\<close>

theorem check_memory_usage_exceeded:
  "(fst (check_memory_usage env st nm thr result) = 1 \<longleftrightarrow> 0 < thr \<and> thr < current_mem env) \<and>
   (fst (check_memory_usage env st nm thr result) = 0 \<longleftrightarrow> \<not> (0 < thr \<and> thr < current_mem env)) \<and>
   fst (check_memory_usage env st nm 0 result) = 0 \<and>
   stderr_log (snd (snd (check_memory_usage env st nm 0 result))) = stderr_log st \<and>
   (\<exists>r. fst (snd (check_memory_usage env st nm thr (Some r0))) = Some r \<and>
        threshold_exceeded r = fst (check_memory_usage env st nm thr (Some r0)) \<and>
        (threshold_exceeded r = 1 \<longleftrightarrow> 0 < thr \<and> thr < current_mem env))"
proof -
  obtain r where r: "fst (snd (check_memory_usage env st nm thr (Some r0))) = Some r"
    "threshold_exceeded r = (if 0 < thr \<and> thr < current_mem env then 1 else 0)"
    using check_memory_usage_result by blast
  have "threshold_exceeded r = fst (check_memory_usage env st nm thr (Some r0))"
    using r(2) by (simp add: check_memory_usage_return)
  moreover have "threshold_exceeded r = 1 \<longleftrightarrow> 0 < thr \<and> thr < current_mem env"
    using r(2) by simp
  moreover have "stderr_log (snd (snd (check_memory_usage env st nm 0 result))) = stderr_log st"
    by (simp add: check_memory_usage_def mem_probe_def Let_def split: option.split)
  ultimately show ?thesis
    using r(1) by (simp add: check_memory_usage_return)
qed

subsection \<open>Capability detection\<close>

lemma is_pipeline_opt_supported_range:
  "is_pipeline_opt_supported msc_ver c \<in> {0, 1, 2}"
  by (simp add: is_pipeline_opt_supported_def Let_def)

lemma get_assembly_optimization_level_range:
  "get_assembly_optimization_level bld msc_ver c \<in> {0, 1, 2}"
  by (simp add: get_assembly_optimization_level_def Let_def)

lemma feature_tests_avx2: "feature_tests e d b AND 128 \<noteq> 0 \<longleftrightarrow> bit_set b 5"
  by (simp add: feature_tests_def Let_def)

lemma feature_tests_sse42: "feature_tests e d b AND 32 \<noteq> 0 \<longleftrightarrow> bit_set e 20"
  by (simp add: feature_tests_def Let_def)

text \<open>
  The level as a function of the processor's registers. With MSVC the three tests read
  the documented bits: AVX2 in \<open>ebx\<close> of leaf 7, SSE4.2 in \<open>ecx\<close> of leaf 1, and
  bit 9 of \<open>edx\<close> of leaf 1 for prefetch.
\<close>

lemma level_msvc:
  "is_pipeline_opt_supported True c =
     (if bit_set (ebx (cpuid c 7)) 5 \<and> bit_set (edx (cpuid c 1)) 9 then 2
      else if bit_set (ecx (cpuid c 1)) 20 \<and> bit_set (edx (cpuid c 1)) 9 then 1
      else 0)"
  by (simp add: is_pipeline_opt_supported_def detect_cpu_features_def
      detect_prefetch_support_def feature_tests_avx2 feature_tests_sse42 Let_def)

text \<open>
  With the other compilers, when the query of leaf 7 succeeds, the SSE4.2 test reads
  \<open>ecx\<close> of leaf 7; it reads \<open>ecx\<close> of leaf 1 only when leaf 7 is not available.
\<close>

lemma level_gcc_leaf7:
  assumes "get_cpuid c 1 = Some r1" and "get_cpuid c 7 = Some r7"
  shows "is_pipeline_opt_supported False c =
     (if bit_set (ebx r7) 5 \<and> bit_set (edx r1) 9 then 2
      else if bit_set (ecx r7) 20 \<and> bit_set (edx r1) 9 then 1
      else 0)"
  using assms
  by (simp add: is_pipeline_opt_supported_def detect_cpu_features_def
      detect_prefetch_support_def feature_tests_avx2 feature_tests_sse42 Let_def)

lemma level_gcc_no_leaf7:
  assumes "get_cpuid c 1 = Some r1" and "get_cpuid c 7 = None"
  shows "is_pipeline_opt_supported False c =
     (if bit_set (ecx r1) 20 \<and> bit_set (edx r1) 9 then 1 else 0)"
  using assms
  by (simp add: is_pipeline_opt_supported_def detect_cpu_features_def
      detect_prefetch_support_def feature_tests_sse42 feature_tests_avx2 Let_def bit_set_def)

text \<open>
  C7 (the code departs from the claim). On a processor that reports SSE4.2 and bit 9 of
  \<open>edx\<close> in leaf 1 and has no AVX2, the level is 1 when the file is compiled with
  MSVC and 0 when it is compiled with another compiler: there both queries write the
  variables \<open>ecx\<close> and \<open>edx\<close>, and the tests for the SSE family read what the query
  of leaf 7 left in them.
\<close>

theorem sse42_level_depends_on_compiler:
  "bit_set (ecx (cpuid sse42_cpu 1)) 20 \<and> bit_set (edx (cpuid sse42_cpu 1)) 9 \<and>
   \<not> bit_set (ebx (cpuid sse42_cpu 7)) 5 \<and>
   detect_cpu_features True sse42_cpu = 127 \<and> detect_prefetch_support True sse42_cpu = 1 \<and>
   is_pipeline_opt_supported True sse42_cpu = 1 \<and>
   detect_cpu_features False sse42_cpu = 0 \<and> detect_prefetch_support False sse42_cpu = 1 \<and>
   is_pipeline_opt_supported False sse42_cpu = 0"
  by code_simp




end
